theory Spec2Isabelle
  imports Complex_Main "HOL-Library.Sublist"
begin

section \<open>Crawl records (interface CrawlDataItem of Summary.tsx)\<close>

text \<open>
  Every field of a crawl record is optional in the source
  (\<^verbatim>\<open>anchor_links?: { internal?: { links?: string[] }; external?: { links?: string[] } }\<close>,
  \<^verbatim>\<open>indexability?: { indexability?: number }\<close>), so every field is an \<open>option\<close>.
  The inner \<^verbatim>\<open>indexability\<close> number is named \<open>indexability_inner\<close>, since a record
  cannot reuse the field name of the enclosing one. A JavaScript number is taken as a
  real; the only operations the component applies to a score are the falsy test of
  \<^verbatim>\<open>||\<close> and the comparison with \<^verbatim>\<open>0.5\<close> (a \<^verbatim>\<open>NaN\<close> score is falsy and so
  behaves as an absent one). The elements of a payload are records, as the type
  \<^verbatim>\<open>CrawlDataItem[]\<close> says; the leading \<^verbatim>\<open>item?.\<close> of the chains only guards an
  element that is null.
\<close>

record LinkList =
  links :: "string list option"

record AnchorLinks =
  internal :: "LinkList option"
  external :: "LinkList option"

record IndexabilityObj =
  indexability_inner :: "real option"

record CrawlDataItem =
  anchor_links :: "AnchorLinks option"
  indexability :: "IndexabilityObj option"

text \<open>
  \<^verbatim>\<open>item?.anchor_links?.internal?.links\<close>: the optional chain, with the links that
  \<^verbatim>\<open>?.forEach\<close> visits (none when any link of the chain is absent).
\<close>

definition internal_links :: "CrawlDataItem \<Rightarrow> string list" where
  "internal_links item =
     (case anchor_links item of
        None \<Rightarrow> []
      | Some al \<Rightarrow>
          (case internal al of
             None \<Rightarrow> []
           | Some l \<Rightarrow> (case links l of None \<Rightarrow> [] | Some xs \<Rightarrow> xs)))"

definition external_links :: "CrawlDataItem \<Rightarrow> string list" where
  "external_links item =
     (case anchor_links item of
        None \<Rightarrow> []
      | Some al \<Rightarrow>
          (case external al of
             None \<Rightarrow> []
           | Some l \<Rightarrow> (case links l of None \<Rightarrow> [] | Some xs \<Rightarrow> xs)))"

text \<open>\<^verbatim>\<open>item?.indexability?.indexability\<close>: the optional chain, \<open>None\<close> for undefined.\<close>

definition indexability_chain :: "CrawlDataItem \<Rightarrow> real option" where
  "indexability_chain item =
     (case indexability item of None \<Rightarrow> None | Some ix \<Rightarrow> indexability_inner ix)"

text \<open>\<^verbatim>\<open>x || 0\<close>: undefined and the falsy number 0 both give 0, any other number itself.\<close>

definition or_zero :: "real option \<Rightarrow> real" where
  "or_zero x = (case x of None \<Rightarrow> 0 | Some v \<Rightarrow> if v = 0 then 0 else v)"

section \<open>The JavaScript Set of strings\<close>

text \<open>
  A \<^verbatim>\<open>Set\<close> keeps its elements in insertion order, and \<^verbatim>\<open>Array.from\<close> lists them in
  that order: a Set is the list of its elements, \<^verbatim>\<open>add\<close> appends an element that is
  not yet there.
\<close>

definition Set_add :: "string list \<Rightarrow> string \<Rightarrow> string list" where
  "Set_add s x = (if x \<in> set s then s else s @ [x])"

definition new_Set :: "string list \<Rightarrow> string list" where
  "new_Set xs = foldl Set_add [] xs"

definition Array_from :: "string list \<Rightarrow> string list" where
  "Array_from s = s"

section \<open>The reducer\<close>

record State =
  internalLinks :: "string list"
  externalLinks :: "string list"
  totalIndexablePages :: int
  isProcessing :: bool

text \<open>
  The type \<^verbatim>\<open>Action\<close> has the one member \<^verbatim>\<open>UPDATE_DATA\<close>; \<open>OTHER\<close> stands for an
  action of any other type, which the \<^verbatim>\<open>default\<close> branch of the switch receives.
\<close>

datatype Action = UPDATE_DATA (payload: "CrawlDataItem list") | OTHER

definition initialState :: State where
  "initialState =
     \<lparr>internalLinks = [], externalLinks = [], totalIndexablePages = 0, isProcessing = False\<rparr>"

text \<open>
  The \<^verbatim>\<open>for (const item of action.payload)\<close> loop, on the three variables it updates:
  the two Sets and the counter.
\<close>

fun reducer_loop ::
  "CrawlDataItem list \<Rightarrow> string list \<times> string list \<times> int \<Rightarrow> string list \<times> string list \<times> int"
where
  "reducer_loop [] acc = acc"
| "reducer_loop (item # rest) (internalLinksSet, externalLinksSet, n) =
     reducer_loop rest
       (foldl Set_add internalLinksSet (internal_links item),
        foldl Set_add externalLinksSet (external_links item),
        (if or_zero (indexability_chain item) > 0.5 then n + 1 else n))"

fun reducer :: "State \<Rightarrow> Action \<Rightarrow> State" where
  "reducer state (UPDATE_DATA data) =
     (case reducer_loop data (new_Set (internalLinks state), new_Set (externalLinks state), 0) of
        (internalLinksSet, externalLinksSet, n) \<Rightarrow>
          \<lparr>internalLinks = Array_from internalLinksSet,
           externalLinks = Array_from externalLinksSet,
           totalIndexablePages = n,
           isProcessing = False\<rparr>)"
| "reducer state OTHER = state"

section \<open>The published summary and the displayed rows\<close>

record SummaryView =
  totaPagesCrawled :: int
  totalInternalLinks :: int
  totalExternalLinks :: int
  totalLinksFound :: int
  notIndexablePages :: int
  indexablePages :: int

text \<open>The object that the first effect hands to \<^verbatim>\<open>setSummary\<close>.\<close>

definition summary_view :: "State \<Rightarrow> CrawlDataItem list \<Rightarrow> SummaryView" where
  "summary_view state stableCrawlData =
     \<lparr>totaPagesCrawled = int (length stableCrawlData),
      totalInternalLinks = int (length (internalLinks state)),
      totalExternalLinks = int (length (externalLinks state)),
      totalLinksFound = int (length (internalLinks state)) + int (length (externalLinks state)),
      notIndexablePages = int (length stableCrawlData) - totalIndexablePages state,
      indexablePages = totalIndexablePages state\<rparr>"

text \<open>Decimal digits of a natural number, as a number prints them.\<close>

definition digit_char :: "nat \<Rightarrow> char" where
  "digit_char d = ''0123456789'' ! d"

function decimal :: "nat \<Rightarrow> string" where
  "decimal n = (if n < 10 then [digit_char n] else decimal (n div 10) @ [digit_char (n mod 10)])"
  by pat_completeness auto
termination
  by (relation "measure id") auto

declare decimal.simps [simp del]

subsection \<open>JavaScript numbers in the percentage: doubles\<close>

text \<open>
  The percentage is computed in doubles: \<^verbatim>\<open>part / whole\<close> is rounded to the nearest
  double, the product with 100 is rounded again, and \<^verbatim>\<open>toFixed(0)\<close> prints the integer
  nearest to the double it is given. A double is a sign, a mantissa and an exponent, and
  stands for \<open>\<plusminus> mantissa * 2 ^ exponent\<close>. Rounding a positive fraction \<open>p / q\<close> to a
  double takes the binade \<open>e\<close> of the fraction (\<open>2 ^ e \<le> p / q < 2 ^ (e + 1)\<close>) and the
  integer nearest to \<open>p / q * 2 ^ (52 - e)\<close>, the even one of two equally near, as the
  mantissa of 53 bits with exponent \<open>e - 52\<close>. This is IEEE 754 binary64 with round to
  nearest even for every value between the smallest normal double and the largest
  double, which holds all quotients and products of integers below \<open>2 ^ 53\<close> that the
  component forms; such integers are doubles themselves.
\<close>

function ilog2 :: "nat \<Rightarrow> nat" where
  "ilog2 n = (if n < 2 then 0 else Suc (ilog2 (n div 2)))"
  by pat_completeness auto
termination
  by (relation "measure id") auto

declare ilog2.simps [simp del]

definition binade :: "nat \<Rightarrow> nat \<Rightarrow> int" where
  "binade p q =
     (if q * 2 ^ ilog2 p \<le> p * 2 ^ ilog2 q
      then int (ilog2 p) - int (ilog2 q)
      else int (ilog2 p) - int (ilog2 q) - 1)"

definition round_half_even :: "nat \<Rightarrow> nat \<Rightarrow> nat" where
  "round_half_even n d =
     (if 2 * (n mod d) < d then n div d
      else if d < 2 * (n mod d) then n div d + 1
      else if even (n div d) then n div d else n div d + 1)"

definition round_double :: "nat \<Rightarrow> nat \<Rightarrow> nat \<times> int" where
  "round_double p q =
     (if p = 0 then (0, 0)
      else (round_half_even (p * 2 ^ nat (52 - binade p q)) (q * 2 ^ nat (binade p q - 52)),
            binade p q - 52))"

definition pow2 :: "int \<Rightarrow> real" where
  "pow2 k = (if 0 \<le> k then 2 ^ nat k else 1 / 2 ^ nat (- k))"

record double =
  sign_bit :: bool
  mantissa :: nat
  exponent :: int

definition double_val :: "double \<Rightarrow> real" where
  "double_val x = (if sign_bit x then - 1 else 1) * (real (mantissa x) * pow2 (exponent x))"

text \<open>\<^verbatim>\<open>a / b\<close> for two integers held in doubles, \<^verbatim>\<open>b\<close> not 0.\<close>

definition double_div :: "int \<Rightarrow> int \<Rightarrow> double" where
  "double_div a b =
     (case round_double (nat \<bar>a\<bar>) (nat \<bar>b\<bar>) of
        (m, k) \<Rightarrow> \<lparr>sign_bit = ((a < 0) \<noteq> (b < 0)), mantissa = m, exponent = k\<rparr>)"

text \<open>\<^verbatim>\<open>x * 100\<close>: the exact product is \<open>100 * mantissa * 2 ^ exponent\<close>.\<close>

definition double_times_100 :: "double \<Rightarrow> double" where
  "double_times_100 x =
     (case round_double (100 * mantissa x * 2 ^ nat (exponent x)) (2 ^ nat (- exponent x)) of
        (m, k) \<Rightarrow> \<lparr>sign_bit = sign_bit x, mantissa = m, exponent = k\<rparr>)"

text \<open>
  \<^verbatim>\<open>Number.prototype.toFixed(0)\<close>: the sign is taken off first (\<^verbatim>\<open>x < 0\<close> gives the
  prefix \<^verbatim>\<open>-\<close>, also when the digits are \<^verbatim>\<open>0\<close>; a zero of either sign is not below
  0), then the integer nearest to the magnitude is printed, the larger one of two equally
  near. This is \<^verbatim>\<open>toFixed\<close> for magnitudes below ten to the power 21, where every
  percentage of array lengths lies.
\<close>

definition round_half_up :: "nat \<Rightarrow> nat \<Rightarrow> nat" where
  "round_half_up n d = (2 * n + d) div (2 * d)"

definition toFixed0 :: "double \<Rightarrow> string" where
  "toFixed0 x =
     (if sign_bit x \<and> mantissa x \<noteq> 0 then ''-'' else '''') @
     decimal (round_half_up (mantissa x * 2 ^ nat (exponent x)) (2 ^ nat (- exponent x)))"

text \<open>
  The percentage of the four ratio rows:
  \<^verbatim>\<open>whole ? `${((part / whole) * 100).toFixed(0)}%` : "0%"\<close>.
\<close>

definition percentage_of :: "int \<Rightarrow> int \<Rightarrow> string" where
  "percentage_of part whole =
     (if whole \<noteq> 0 then toFixed0 (double_times_100 (double_div part whole)) @ ''%''
      else ''0%'')"

text \<open>The number that the digits of a percentage denote, for a part and a whole above 0.\<close>

definition percent_digits :: "nat \<Rightarrow> nat \<Rightarrow> nat" where
  "percent_digits a b =
     (case round_double a b of
        (m1, k1) \<Rightarrow>
          (case round_double (100 * m1 * 2 ^ nat k1) (2 ^ nat (- k1)) of
             (m2, k2) \<Rightarrow> round_half_up (m2 * 2 ^ nat k2) (2 ^ nat (- k2))))"

record SummaryItem =
  label :: string
  item_value :: int
  percentage :: string

text \<open>
  The memoised \<^verbatim>\<open>summaryData\<close>, with \<^verbatim>\<open>totalPagesCrawled\<close> and
  \<^verbatim>\<open>totalNotIndexablePages\<close> of the memo before it.
\<close>

definition totalPagesCrawled :: "CrawlDataItem list \<Rightarrow> int" where
  "totalPagesCrawled stableCrawlData = int (length stableCrawlData)"

definition totalNotIndexablePages :: "State \<Rightarrow> CrawlDataItem list \<Rightarrow> int" where
  "totalNotIndexablePages state stableCrawlData =
     int (length stableCrawlData) - totalIndexablePages state"

definition summaryData :: "State \<Rightarrow> CrawlDataItem list \<Rightarrow> SummaryItem list" where
  "summaryData state stableCrawlData =
     [\<lparr>label = ''Pages crawled'',
       item_value = totalPagesCrawled stableCrawlData,
       percentage = ''100%''\<rparr>,
      \<lparr>label = ''Total Links Found'',
       item_value = int (length (internalLinks state)) + int (length (externalLinks state)),
       percentage = ''100%''\<rparr>,
      \<lparr>label = ''Total Internal Links'',
       item_value = int (length (internalLinks state)),
       percentage =
         percentage_of (int (length (internalLinks state)))
           (int (length (internalLinks state)) + int (length (externalLinks state)))\<rparr>,
      \<lparr>label = ''Total External Links'',
       item_value = int (length (externalLinks state)),
       percentage =
         percentage_of (int (length (externalLinks state)))
           (int (length (internalLinks state)) + int (length (externalLinks state)))\<rparr>,
      \<lparr>label = ''Total Indexable Pages'',
       item_value = totalIndexablePages state,
       percentage =
         percentage_of (totalIndexablePages state) (totalPagesCrawled stableCrawlData)\<rparr>,
      \<lparr>label = ''Total Not Indexable Pages'',
       item_value = totalNotIndexablePages state stableCrawlData,
       percentage =
         percentage_of (totalNotIndexablePages state stableCrawlData)
           (totalPagesCrawled stableCrawlData)\<rparr>]"

section \<open>The Summary component: store, effects and the debounce timer\<close>

text \<open>
  The mounted component together with what it reads and writes: the store's
  \<^verbatim>\<open>crawlData\<close> (\<open>None\<close> when it is null or undefined), the reducer state, the
  timer of the debounced function (its deadline and the arguments of the last call),
  and the clock in milliseconds. Two logs record what the component does: \<open>published\<close>
  lists the arguments of the calls of \<^verbatim>\<open>setSummary\<close>, \<open>folds\<close> the time and the
  payload of every dispatch of \<^verbatim>\<open>UPDATE_DATA\<close>.
\<close>

record Component =
  crawlData :: "CrawlDataItem list option"
  state :: State
  timer :: "(nat \<times> CrawlDataItem list) option"
  now :: nat
  published :: "SummaryView list"
  folds :: "(nat \<times> CrawlDataItem list) list"
  mounted :: bool

text \<open>\<^verbatim>\<open>useMemo(() => crawlData || [], [crawlData])\<close>\<close>

definition stableCrawlData :: "Component \<Rightarrow> CrawlDataItem list" where
  "stableCrawlData c = (case crawlData c of None \<Rightarrow> [] | Some d \<Rightarrow> d)"

text \<open>
  The effect with dependencies \<^verbatim>\<open>[state, stableCrawlData, setSummary]\<close>: it runs
  after the first render and after every render in which the state or the snapshot is a
  new object.
\<close>

definition setSummary_effect :: "Component \<Rightarrow> Component" where
  "setSummary_effect c =
     (if \<not> isProcessing (state c)
      then c\<lparr>published := published c @ [summary_view (state c) (stableCrawlData c)]\<rparr>
      else c)"

text \<open>
  \<^verbatim>\<open>debounce(f, 300)\<close> of lodash with its default options (trailing edge only): a call
  records its arguments and makes the function due 300 ms after this call; \<^verbatim>\<open>cancel\<close>
  drops the pending invocation.
\<close>

definition wait :: nat where
  "wait = 300"

definition debouncedUpdate :: "Component \<Rightarrow> CrawlDataItem list \<Rightarrow> Component" where
  "debouncedUpdate c data = c\<lparr>timer := Some (now c + wait, data)\<rparr>"

definition debouncedUpdate_cancel :: "Component \<Rightarrow> Component" where
  "debouncedUpdate_cancel c = c\<lparr>timer := None\<rparr>"

text \<open>
  The effect with dependencies \<^verbatim>\<open>[stableCrawlData, debouncedUpdate]\<close>; its cleanup is
  \<^verbatim>\<open>debouncedUpdate.cancel()\<close>.
\<close>

definition trigger_effect :: "Component \<Rightarrow> Component" where
  "trigger_effect c = debouncedUpdate c (stableCrawlData c)"

text \<open>
  The timer's callback: \<^verbatim>\<open>dispatch({ type: "UPDATE_DATA", payload: data })\<close>. The
  reducer returns a new object, so the component renders again and the first effect
  runs.
\<close>

definition fire :: "Component \<Rightarrow> CrawlDataItem list \<Rightarrow> Component" where
  "fire c data =
     setSummary_effect
       (c\<lparr>timer := None,
          state := reducer (state c) (UPDATE_DATA data),
          folds := folds c @ [(now c, data)]\<rparr>)"

text \<open>The first render at time \<open>t\<close> with the store holding \<open>d\<close>: both effects run.\<close>

definition mount :: "nat \<Rightarrow> CrawlDataItem list option \<Rightarrow> Component" where
  "mount t d =
     trigger_effect
       (setSummary_effect
          \<lparr>crawlData = d, state = initialState, timer = None, now = t,
           published = [], folds = [], mounted = True\<rparr>)"

text \<open>
  What can happen to a mounted component: the store replaces \<^verbatim>\<open>crawlData\<close> (a new
  object, so both effects run again, the cleanup of the second one first); time passes,
  and a timer that is due fires (a JavaScript timer fires at its deadline or later: here
  at the end of the step that reaches the deadline); the component unmounts, which runs
  the cleanup. Nothing happens to a component that is not mounted.
\<close>

datatype Event = CrawlDataChanged "CrawlDataItem list option" | Advance nat | Unmount

fun step :: "Component \<Rightarrow> Event \<Rightarrow> Component" where
  "step c (CrawlDataChanged d) =
     (if mounted c
      then trigger_effect (setSummary_effect (debouncedUpdate_cancel (c\<lparr>crawlData := d\<rparr>)))
      else c)"
| "step c (Advance dt) =
     (if mounted c
      then (let c' = c\<lparr>now := now c + dt\<rparr> in
            case timer c' of
              None \<Rightarrow> c'
            | Some (deadline, data) \<Rightarrow> if deadline \<le> now c' then fire c' data else c')
      else c)"
| "step c Unmount =
     (if mounted c then (debouncedUpdate_cancel c)\<lparr>mounted := False\<rparr> else c)"

definition run :: "Component \<Rightarrow> Event list \<Rightarrow> Component" where
  "run c evs = foldl step c evs"

text \<open>
  The header of the rendered component shows the text \<^verbatim>\<open>Processing...\<close> under
  \<^verbatim>\<open>state.isProcessing &&\<close>.
\<close>

definition processing_indicator :: "Component \<Rightarrow> bool" where
  "processing_indicator c = isProcessing (state c)"

text \<open>
  What holds of the scheduler in a mounted component at every moment: a pending timer
  is not yet due, is due within the window, and carries the current snapshot; with no
  timer pending, the last fold ran over the current snapshot and the reducer state is
  its result. At every moment the flag \<^verbatim>\<open>isProcessing\<close> is false and the view
  published last is the one of the current state and snapshot.
\<close>

definition scheduler_inv :: "Component \<Rightarrow> bool" where
  "scheduler_inv c =
     (mounted c \<and>
      \<not> isProcessing (state c) \<and>
      published c \<noteq> [] \<and>
      last (published c) = summary_view (state c) (stableCrawlData c) \<and>
      (case timer c of
         Some (deadline, data) \<Rightarrow>
           now c < deadline \<and> deadline \<le> now c + wait \<and> data = stableCrawlData c
       | None \<Rightarrow>
           folds c \<noteq> [] \<and> snd (last (folds c)) = stableCrawlData c \<and>
           (\<exists>S. state c = reducer S (UPDATE_DATA (stableCrawlData c)))))"

text \<open>The five fields of a published view other than \<^verbatim>\<open>notIndexablePages\<close> are not negative.\<close>

definition view_fields_nonneg :: "SummaryView \<Rightarrow> bool" where
  "view_fields_nonneg v \<longleftrightarrow>
     0 \<le> totaPagesCrawled v \<and> 0 \<le> totalInternalLinks v \<and> 0 \<le> totalExternalLinks v \<and>
     0 \<le> totalLinksFound v \<and> 0 \<le> indexablePages v"

section \<open>The specification's reading of a record and of a displayed percentage\<close>

text \<open>
  The specification's data model gives a record an \<open>indexabilityScore\<close>, an optional
  number whose absence is treated as 0, and calls a record indexable when the score is
  strictly greater than 0.5.
\<close>

definition spec_indexabilityScore :: "CrawlDataItem \<Rightarrow> real" where
  "spec_indexabilityScore item = (case indexability_chain item of None \<Rightarrow> 0 | Some v \<Rightarrow> v)"

definition spec_indexable :: "CrawlDataItem \<Rightarrow> bool" where
  "spec_indexable item \<longleftrightarrow> spec_indexabilityScore item > 0.5"

text \<open>
  Reading a displayed percentage back: an optional minus sign, decimal digits, and the
  percent sign. \<open>read_percentage\<close> gives whether the text is signed and the number its
  digits denote, or \<open>None\<close> for any other text.
\<close>

definition digit_value :: "char \<Rightarrow> nat" where
  "digit_value ch = length (takeWhile (\<lambda>d. d \<noteq> ch) ''0123456789'')"

definition read_decimal :: "string \<Rightarrow> nat option" where
  "read_decimal s =
     (if s \<noteq> [] \<and> list_all (\<lambda>ch. digit_value ch < 10) s
      then Some (foldl (\<lambda>acc ch. acc * 10 + digit_value ch) 0 s)
      else None)"

definition read_percentage :: "string \<Rightarrow> (bool \<times> nat) option" where
  "read_percentage str =
     (if str \<noteq> [] \<and> last str = CHR ''%''
      then (let body = butlast str in
            if body \<noteq> [] \<and> hd body = CHR ''-''
            then map_option (Pair True) (read_decimal (tl body))
            else map_option (Pair False) (read_decimal body))
      else None)"

text \<open>
  A text displays the ratio \<open>part / whole\<close> as a percentage rounded to the nearest
  whole percent when it reads as a number at most one half away from
  \<open>(part / whole) * 100\<close>, signed exactly when that value is negative.
\<close>

definition displays_nearest_percent :: "int \<Rightarrow> int \<Rightarrow> string \<Rightarrow> bool" where
  "displays_nearest_percent part whole str =
     (case read_percentage str of
        None \<Rightarrow> False
      | Some (negative, m) \<Rightarrow>
          (negative \<longleftrightarrow> (real_of_int part / real_of_int whole) * 100 < 0) \<and>
          \<bar>real m - \<bar>(real_of_int part / real_of_int whole) * 100\<bar>\<bar> \<le> 1 / 2)"

section \<open>The chat component's clearChatHistory\<close>

datatype Role = user | assistant

record Message =
  msg_id :: int
  role :: Role
  content :: string

text \<open>
  The state \<^verbatim>\<open>clearChatHistory\<close> touches: the \<^verbatim>\<open>messages\<close> of the chat component,
  the local storage (\<open>None\<close> when access to it throws) and the toasts shown.
\<close>

record AIcontainer =
  messages :: "Message list"
  localStorage :: "(string \<rightharpoonup> string) option"
  toasts :: "string list"

definition LOCAL_STORAGE_KEY :: string where
  "LOCAL_STORAGE_KEY = ''chat_messages''"

definition clearChatHistory :: "AIcontainer \<Rightarrow> AIcontainer" where
  "clearChatHistory a =
     (case localStorage a of
        Some store \<Rightarrow>
          a\<lparr>localStorage := Some (store(LOCAL_STORAGE_KEY := None)),
            messages := [],
            toasts := toasts a @ [''Chat history cleared'']\<rparr>
      | None \<Rightarrow> a\<lparr>toasts := toasts a @ [''Failed to clear chat history'']\<rparr>)"

text \<open>
  The two components side by side: \<^verbatim>\<open>clearChatHistory\<close> is a closure over the chat
  component's own state and the local storage, so it leaves the Summary component as it
  is.
\<close>

record App =
  summary_component :: Component
  chat_component :: AIcontainer

definition app_clearChatHistory :: "App \<Rightarrow> App" where
  "app_clearChatHistory app = app\<lparr>chat_component := clearChatHistory (chat_component app)\<rparr>"

section \<open>Sample records\<close>

definition page :: "string list \<Rightarrow> string list \<Rightarrow> real \<Rightarrow> CrawlDataItem" where
  "page ins exts score =
     \<lparr>anchor_links = Some \<lparr>internal = Some \<lparr>links = Some ins\<rparr>,
                           external = Some \<lparr>links = Some exts\<rparr>\<rparr>,
      indexability = Some \<lparr>indexability_inner = Some score\<rparr>\<rparr>"

definition bare_page :: CrawlDataItem where
  "bare_page = \<lparr>anchor_links = None, indexability = None\<rparr>"

section \<open>Sets as duplicate-free lists\<close>

lemma set_Set_add: "set (Set_add s x) = insert x (set s)"
  by (auto simp: Set_add_def)

lemma set_foldl_Set_add: "set (foldl Set_add s xs) = set s \<union> set xs"
  by (induction xs arbitrary: s) (auto simp: set_Set_add)

lemma distinct_Set_add: "distinct s \<Longrightarrow> distinct (Set_add s x)"
  by (simp add: Set_add_def)

lemma distinct_foldl_Set_add: "distinct s \<Longrightarrow> distinct (foldl Set_add s xs)"
  by (induction xs arbitrary: s) (simp_all add: distinct_Set_add)

lemma prefix_foldl_Set_add: "prefix s (foldl Set_add s xs)"
proof (induction xs arbitrary: s)
  case Nil
  show ?case by simp
next
  case (Cons x xs)
  have "prefix s (Set_add s x)" by (simp add: Set_add_def)
  also have "prefix (Set_add s x) (foldl Set_add (Set_add s x) xs)" by (rule Cons.IH)
  finally show ?case by simp
qed

lemma foldl_Set_add_absorb: "set xs \<subseteq> set s \<Longrightarrow> foldl Set_add s xs = s"
  by (induction xs arbitrary: s) (simp_all add: Set_add_def)

lemma foldl_Set_add_fresh:
  "distinct xs \<Longrightarrow> set xs \<inter> set s = {} \<Longrightarrow> foldl Set_add s xs = s @ xs"
  by (induction xs arbitrary: s) (auto simp: Set_add_def)

lemma new_Set_distinct: "distinct xs \<Longrightarrow> new_Set xs = xs"
  using foldl_Set_add_fresh [of xs "[]"] by (simp add: new_Set_def)

lemma distinct_new_Set: "distinct (new_Set xs)"
  by (simp add: new_Set_def distinct_foldl_Set_add)

lemma set_new_Set: "set (new_Set xs) = set xs"
  by (simp add: new_Set_def set_foldl_Set_add)

lemma new_Set_idem: "new_Set (new_Set xs) = new_Set xs"
  by (simp add: new_Set_distinct distinct_new_Set)

lemma foldl_Set_add_new_Set_append:
  "foldl Set_add (new_Set xs) (xs @ ys) = new_Set (xs @ ys)"
proof -
  have "foldl Set_add (new_Set xs) xs = new_Set xs"
    by (rule foldl_Set_add_absorb) (simp add: set_new_Set)
  then show ?thesis by (simp add: new_Set_def)
qed

lemma foldl_Set_add_new_Set_absorb:
  "set ys \<subseteq> set xs \<Longrightarrow> foldl Set_add (new_Set xs) ys = new_Set xs"
  by (rule foldl_Set_add_absorb) (simp add: set_new_Set)

section \<open>The reducer in closed form\<close>

lemma reducer_loop_eq:
  "reducer_loop data (i, e, n) =
     (foldl Set_add i (concat (map internal_links data)),
      foldl Set_add e (concat (map external_links data)),
      n + int (length (filter (\<lambda>item. or_zero (indexability_chain item) > 0.5) data)))"
  by (induction data arbitrary: i e n) simp_all

lemma reducer_UPDATE_DATA:
  "reducer S (UPDATE_DATA data) =
     \<lparr>internalLinks = foldl Set_add (new_Set (internalLinks S)) (concat (map internal_links data)),
      externalLinks = foldl Set_add (new_Set (externalLinks S)) (concat (map external_links data)),
      totalIndexablePages =
        int (length (filter (\<lambda>item. or_zero (indexability_chain item) > 0.5) data)),
      isProcessing = False\<rparr>"
  by (simp add: reducer_loop_eq Array_from_def)

declare reducer.simps(1) [simp del]

lemma reducer_empty:
  "reducer S (UPDATE_DATA []) =
     \<lparr>internalLinks = new_Set (internalLinks S), externalLinks = new_Set (externalLinks S),
      totalIndexablePages = 0, isProcessing = False\<rparr>"
  by (simp add: reducer_UPDATE_DATA)

lemma reducer_distinct:
  "distinct (internalLinks S) \<Longrightarrow> distinct (externalLinks S) \<Longrightarrow>
   distinct (internalLinks (reducer S a)) \<and> distinct (externalLinks (reducer S a))"
  by (cases a) (simp_all add: reducer_UPDATE_DATA distinct_foldl_Set_add distinct_new_Set)

lemma reachable_distinct:
  "distinct (internalLinks (foldl reducer initialState acts)) \<and>
   distinct (externalLinks (foldl reducer initialState acts))"
proof (induction acts rule: rev_induct)
  case Nil
  show ?case by (simp add: initialState_def)
next
  case (snoc a acts)
  then show ?case using reducer_distinct by simp
qed

lemma reducer_prefix:
  "distinct (internalLinks S) \<Longrightarrow> distinct (externalLinks S) \<Longrightarrow>
   prefix (internalLinks S) (internalLinks (reducer S a)) \<and>
   prefix (externalLinks S) (externalLinks (reducer S a))"
  by (cases a) (simp_all add: reducer_UPDATE_DATA new_Set_distinct prefix_foldl_Set_add)

lemma reducer_foldl_prefix:
  "distinct (internalLinks S) \<Longrightarrow> distinct (externalLinks S) \<Longrightarrow>
   prefix (internalLinks S) (internalLinks (foldl reducer S later)) \<and>
   prefix (externalLinks S) (externalLinks (foldl reducer S later))"
proof (induction later arbitrary: S)
  case Nil
  show ?case by simp
next
  case (Cons a later)
  have d: "distinct (internalLinks (reducer S a))" "distinct (externalLinks (reducer S a))"
    using reducer_distinct [OF Cons.prems] by simp_all
  have p: "prefix (internalLinks S) (internalLinks (reducer S a))"
          "prefix (externalLinks S) (externalLinks (reducer S a))"
    using reducer_prefix [OF Cons.prems] by simp_all
  from Cons.IH [OF d] p show ?case
    by (auto intro: prefix_order.trans)
qed

lemma reachable_prefix:
  "prefix (internalLinks (foldl reducer initialState acts))
     (internalLinks (foldl reducer (foldl reducer initialState acts) later)) \<and>
   prefix (externalLinks (foldl reducer initialState acts))
     (externalLinks (foldl reducer (foldl reducer initialState acts) later))"
  using reachable_distinct [of acts] reducer_foldl_prefix by blast

lemma reducer_links_subset:
  "set (internalLinks S) \<subseteq> set (internalLinks (reducer S a)) \<and>
   set (externalLinks S) \<subseteq> set (externalLinks (reducer S a))"
  by (cases a) (auto simp: reducer_UPDATE_DATA set_foldl_Set_add set_new_Set)

lemma reducer_isProcessing: "\<not> isProcessing S \<Longrightarrow> \<not> isProcessing (reducer S a)"
  by (cases a) (simp_all add: reducer_UPDATE_DATA)

lemma reachable_isProcessing: "\<not> isProcessing (foldl reducer initialState acts)"
  by (induction acts rule: rev_induct) (simp_all add: initialState_def reducer_isProcessing)

subsection \<open>The indexability test against the specification's score\<close>

lemma or_zero_spec: "or_zero (indexability_chain item) = spec_indexabilityScore item"
  by (simp add: or_zero_def spec_indexabilityScore_def split: option.splits)

lemma indexable_fun_eq:
  "(\<lambda>item. or_zero (indexability_chain item) > 0.5) = spec_indexable"
  by (rule ext) (simp add: or_zero_spec spec_indexable_def)

lemma reducer_count_spec:
  "totalIndexablePages (reducer S (UPDATE_DATA batch)) = int (length (filter spec_indexable batch))"
  unfolding reducer_UPDATE_DATA indexable_fun_eq by simp

lemma spec_indexable_page: "spec_indexable (page ins exts score) \<longleftrightarrow> score > 0.5"
  by (simp add: spec_indexable_def spec_indexabilityScore_def indexability_chain_def page_def)

lemma spec_indexable_bare: "\<not> spec_indexable bare_page"
  by (simp add: spec_indexable_def spec_indexabilityScore_def indexability_chain_def bare_page_def)

subsection \<open>Folding snapshots that grow\<close>

lemma fold_prefix_links:
  assumes "prefix p snap" and "prefix b snap"
  shows "\<exists>p'. prefix p' snap \<and>
           foldl Set_add (new_Set (concat (map f p))) (concat (map f b)) = new_Set (concat (map f p')) \<and>
           foldl Set_add (new_Set (concat (map g p))) (concat (map g b)) = new_Set (concat (map g p'))"
proof -
  from assms have "prefix p b \<or> prefix b p" by (rule prefix_same_cases)
  then show ?thesis
  proof
    assume "prefix p b"
    then obtain r where b: "b = p @ r" by (auto simp: prefix_def)
    have "foldl Set_add (new_Set (concat (map f p))) (concat (map f b)) = new_Set (concat (map f b))"
      unfolding b map_append concat_append by (rule foldl_Set_add_new_Set_append)
    moreover
    have "foldl Set_add (new_Set (concat (map g p))) (concat (map g b)) = new_Set (concat (map g b))"
      unfolding b map_append concat_append by (rule foldl_Set_add_new_Set_append)
    ultimately show ?thesis using assms(2) by blast
  next
    assume "prefix b p"
    then obtain r where p: "p = b @ r" by (auto simp: prefix_def)
    have "foldl Set_add (new_Set (concat (map f p))) (concat (map f b)) = new_Set (concat (map f p))"
      by (rule foldl_Set_add_new_Set_absorb) (auto simp: p)
    moreover
    have "foldl Set_add (new_Set (concat (map g p))) (concat (map g b)) = new_Set (concat (map g p))"
      by (rule foldl_Set_add_new_Set_absorb) (auto simp: p)
    ultimately show ?thesis using assms(1) by blast
  qed
qed

lemma batches_links:
  "\<forall>b\<in>set batches. prefix b snap \<Longrightarrow>
   \<exists>p. prefix p snap \<and>
     internalLinks (foldl reducer initialState (map UPDATE_DATA batches)) =
       new_Set (concat (map internal_links p)) \<and>
     externalLinks (foldl reducer initialState (map UPDATE_DATA batches)) =
       new_Set (concat (map external_links p))"
proof (induction batches rule: rev_induct)
  case Nil
  show ?case
    by (rule exI [of _ "[]"]) (simp add: initialState_def new_Set_def)
next
  case (snoc b batches)
  then obtain p where p: "prefix p snap"
    "internalLinks (foldl reducer initialState (map UPDATE_DATA batches)) =
       new_Set (concat (map internal_links p))"
    "externalLinks (foldl reducer initialState (map UPDATE_DATA batches)) =
       new_Set (concat (map external_links p))"
    by auto
  from snoc.prems have b: "prefix b snap" by simp
  from fold_prefix_links [OF p(1) b, of internal_links external_links] p(2,3)
  show ?case by (simp add: reducer_UPDATE_DATA new_Set_idem)
qed

lemma batching_independent:
  assumes "\<forall>b\<in>set batches. prefix b snap"
  shows "foldl reducer initialState (map UPDATE_DATA batches @ [UPDATE_DATA snap]) =
           reducer initialState (UPDATE_DATA snap)"
proof -
  from batches_links [OF assms] obtain p where p: "prefix p snap"
    "internalLinks (foldl reducer initialState (map UPDATE_DATA batches)) =
       new_Set (concat (map internal_links p))"
    "externalLinks (foldl reducer initialState (map UPDATE_DATA batches)) =
       new_Set (concat (map external_links p))"
    by blast
  from p(1) obtain r where snap: "snap = p @ r" by (auto simp: prefix_def)
  have i: "foldl Set_add (new_Set (concat (map internal_links p))) (concat (map internal_links snap))
             = new_Set (concat (map internal_links snap))"
    unfolding snap map_append concat_append by (rule foldl_Set_add_new_Set_append)
  have e: "foldl Set_add (new_Set (concat (map external_links p))) (concat (map external_links snap))
             = new_Set (concat (map external_links snap))"
    unfolding snap map_append concat_append by (rule foldl_Set_add_new_Set_append)
  have l: "reducer (foldl reducer initialState (map UPDATE_DATA batches)) (UPDATE_DATA snap) =
      \<lparr>internalLinks = new_Set (concat (map internal_links snap)),
       externalLinks = new_Set (concat (map external_links snap)),
       totalIndexablePages =
         int (length (filter (\<lambda>item. or_zero (indexability_chain item) > 0.5) snap)),
       isProcessing = False\<rparr>"
    by (simp add: reducer_UPDATE_DATA p(2,3) new_Set_idem i e)
  have r: "reducer initialState (UPDATE_DATA snap) =
      \<lparr>internalLinks = new_Set (concat (map internal_links snap)),
       externalLinks = new_Set (concat (map external_links snap)),
       totalIndexablePages =
         int (length (filter (\<lambda>item. or_zero (indexability_chain item) > 0.5) snap)),
       isProcessing = False\<rparr>"
    by (simp add: reducer_UPDATE_DATA initialState_def new_Set_def)
  show ?thesis by (simp add: l r)
qed

section \<open>Displayed percentages read back\<close>

lemma digit_value_digit_char: "d < 10 \<Longrightarrow> digit_value (digit_char d) = d"
proof -
  assume "d < 10"
  then have "d \<in> {0,1,2,3,4,5,6,7,8,9}" by auto
  then show ?thesis
    by (auto simp: digit_value_def digit_char_def)
qed

lemma decimal_nonempty: "decimal n \<noteq> []"
  by (subst decimal.simps) simp

lemma decimal_digits: "list_all (\<lambda>ch. digit_value ch < 10) (decimal n)"
proof (induction n rule: decimal.induct)
  case (1 n)
  show ?case
  proof (cases "n < 10")
    case True
    then show ?thesis
      by (subst decimal.simps) (simp add: digit_value_digit_char)
  next
    case False
    with 1 show ?thesis
      by (subst decimal.simps) (simp add: digit_value_digit_char)
  qed
qed

lemma decimal_foldl: "foldl (\<lambda>acc ch. acc * 10 + digit_value ch) 0 (decimal n) = n"
proof (induction n rule: decimal.induct)
  case (1 n)
  show ?case
  proof (cases "n < 10")
    case True
    then show ?thesis
      by (subst decimal.simps) (simp add: digit_value_digit_char)
  next
    case False
    with 1 show ?thesis
      by (subst decimal.simps) (simp add: digit_value_digit_char)
  qed
qed

lemma read_decimal_decimal: "read_decimal (decimal n) = Some n"
  by (simp add: read_decimal_def decimal_nonempty decimal_digits decimal_foldl)

lemma hd_decimal: "hd (decimal n) \<noteq> CHR ''-''"
proof -
  from decimal_digits [of n] decimal_nonempty [of n]
  have "digit_value (hd (decimal n)) < 10"
    by (cases "decimal n") simp_all
  moreover have "digit_value CHR ''-'' = 10" by (simp add: digit_value_def)
  ultimately show ?thesis by auto
qed

subsection \<open>Rounding to a double\<close>

lemma ilog2_bounds: "0 < n \<Longrightarrow> 2 ^ ilog2 n \<le> n \<and> n < 2 ^ Suc (ilog2 n)"
proof (induction n rule: ilog2.induct)
  case (1 n)
  show ?case
  proof (cases "n < 2")
    case True
    with 1(2) have "n = 1" by simp
    then show ?thesis by (subst (1 2) ilog2.simps) simp
  next
    case False
    then have pos: "0 < n div 2" by simp
    from 1(1) [OF False pos] have ih: "2 ^ ilog2 (n div 2) \<le> n div 2"
      "n div 2 < 2 ^ Suc (ilog2 (n div 2))" by simp_all
    have e: "ilog2 n = Suc (ilog2 (n div 2))"
      using False by (subst ilog2.simps) simp
    from ih(1) have "2 * 2 ^ ilog2 (n div 2) \<le> n" by linarith
    moreover from ih(2) have "n < 2 * 2 ^ Suc (ilog2 (n div 2))" by linarith
    ultimately show ?thesis unfolding e by simp
  qed
qed

lemma pow2_powr: "pow2 k = 2 powr (real_of_int k)"
  by (simp add: pow2_def powr_real_of_int field_simps)

lemma pow2_pos: "0 < pow2 k"
  by (simp add: pow2_powr)

lemma pow2_add: "pow2 (a + b) = pow2 a * pow2 b"
  by (simp add: pow2_powr powr_add)

lemma pow2_diff: "pow2 (a - b) = pow2 a / pow2 b"
  by (simp add: pow2_powr powr_diff)

lemma pow2_int: "pow2 (int n) = 2 ^ n"
  by (simp add: pow2_def)

lemma pow2_split: "pow2 k = 2 ^ nat k / 2 ^ nat (- k)"
  by (simp add: pow2_def)

lemma binade_le:
  assumes "0 < p" and "0 < q"
  shows "pow2 (binade p q) \<le> real p / real q"
proof (cases "q * 2 ^ ilog2 p \<le> p * 2 ^ ilog2 q")
  case True
  then have "real (q * 2 ^ ilog2 p) \<le> real (p * 2 ^ ilog2 q)"
    by (rule iffD2 [OF of_nat_le_iff])
  then have "real q * 2 ^ ilog2 p \<le> real p * 2 ^ ilog2 q" by simp
  then have "2 ^ ilog2 p / 2 ^ ilog2 q \<le> real p / real q"
    using assms by (simp add: field_simps)
  moreover have "binade p q = int (ilog2 p) - int (ilog2 q)"
    using True by (simp add: binade_def)
  ultimately show ?thesis by (simp add: pow2_diff pow2_int)
next
  case False
  then have b: "binade p q = int (ilog2 p) - int (Suc (ilog2 q))"
    by (simp add: binade_def)
  from ilog2_bounds [OF assms(1)] have "real (2 ^ ilog2 p) \<le> real p"
    by (simp only: of_nat_le_iff)
  then have p: "2 ^ ilog2 p \<le> real p" by simp
  from ilog2_bounds [OF assms(2)] have "real q < real (2 ^ Suc (ilog2 q))"
    by (simp only: of_nat_less_iff)
  then have q: "real q < 2 ^ Suc (ilog2 q)" by simp
  have "2 ^ ilog2 p / 2 ^ Suc (ilog2 q) \<le> real p / 2 ^ Suc (ilog2 q)"
    using p by (simp add: divide_right_mono)
  also have "\<dots> \<le> real p / real q"
    using q assms by (simp add: frac_le)
  finally have "2 ^ ilog2 p / 2 ^ Suc (ilog2 q) \<le> real p / real q" .
  moreover have "pow2 (int (ilog2 p) - int (Suc (ilog2 q))) = 2 ^ ilog2 p / 2 ^ Suc (ilog2 q)"
    by (simp only: pow2_diff pow2_int)
  ultimately show ?thesis unfolding b by simp
qed

lemma round_half_even_err:
  assumes "0 < d"
  shows "\<bar>real (round_half_even n d) - real n / real d\<bar> \<le> 1 / 2"
proof -
  have n: "real n = real d * real (n div d) + real (n mod d)"
    by (metis of_nat_add of_nat_mult mult_div_mod_eq)
  have r: "real (n mod d) < real d" using assms by simp
  have q: "real n / real d = real (n div d) + real (n mod d) / real d"
    using assms by (subst n) (simp add: field_simps)
  consider "2 * (n mod d) < d" | "d < 2 * (n mod d)" | "2 * (n mod d) = d" by linarith
  then show ?thesis
  proof cases
    case 1
    then have "2 * real (n mod d) < real d" by linarith
    then have "real (n mod d) / real d \<le> 1 / 2" using assms by (simp add: field_simps)
    moreover have "0 \<le> real (n mod d) / real d" by simp
    moreover have "round_half_even n d = n div d" using 1 by (simp add: round_half_even_def)
    ultimately show ?thesis unfolding q by simp
  next
    case 2
    then have "real d < 2 * real (n mod d)" by linarith
    then have "1 / 2 \<le> real (n mod d) / real d" using assms by (simp add: field_simps)
    moreover have "real (n mod d) / real d \<le> 1" using r assms by (simp add: field_simps)
    moreover have "round_half_even n d = n div d + 1" using 2 by (simp add: round_half_even_def)
    ultimately show ?thesis unfolding q by simp
  next
    case 3
    then have "2 * real (n mod d) = real d" by linarith
    then have h: "real (n mod d) / real d = 1 / 2" using assms by (simp add: field_simps)
    have "round_half_even n d = n div d \<or> round_half_even n d = n div d + 1"
      using 3 by (simp add: round_half_even_def)
    then show ?thesis unfolding q h by auto
  qed
qed

lemma round_half_up_err:
  assumes "0 < d"
  shows "\<bar>real (round_half_up n d) - real n / real d\<bar> \<le> 1 / 2"
proof -
  let ?N = "2 * n + d" and ?D = "2 * d"
  have D: "0 < ?D" using assms by simp
  have n: "real ?N = real ?D * real (?N div ?D) + real (?N mod ?D)"
    by (metis of_nat_add of_nat_mult mult_div_mod_eq)
  have r: "real (?N mod ?D) < real ?D" using D by (simp only: of_nat_less_iff mod_less_divisor)
  have "real ?N / real ?D = real (?N div ?D) + real (?N mod ?D) / real ?D"
    using D by (subst n) (simp add: field_simps)
  moreover have "real ?N / real ?D = real n / real d + 1 / 2"
    using assms by (simp add: field_simps)
  ultimately have e: "real (?N div ?D) - real n / real d = 1 / 2 - real (?N mod ?D) / real ?D"
    by linarith
  have "0 \<le> real (?N mod ?D) / real ?D" by simp
  moreover have "real (?N mod ?D) / real ?D \<le> 1"
    using r D by (simp add: field_simps)
  ultimately show ?thesis unfolding round_half_up_def e by linarith
qed


lemma pow2_52: "pow2 (e - 52) / 2 = pow2 e / 2 ^ 53"
proof -
  have "pow2 (e - 52) = pow2 e / pow2 52" by (rule pow2_diff)
  moreover have "pow2 52 = 2 ^ 52" by (simp add: pow2_def)
  ultimately show ?thesis by simp
qed

lemma scaled_err:
  assumes "\<bar>m - x * pow2 (- k)\<bar> \<le> 1 / 2"
  shows "\<bar>m * pow2 k - x\<bar> \<le> pow2 k / 2"
proof -
  have inv: "pow2 k * pow2 (- k) = 1"
    using pow2_add [of k "- k"] by (simp add: pow2_def)
  have "m * pow2 k - x = pow2 k * (m - x * pow2 (- k))"
  proof -
    have "pow2 k * (m - x * pow2 (- k)) = m * pow2 k - x * (pow2 k * pow2 (- k))"
      by (simp add: algebra_simps)
    then show ?thesis by (simp add: inv)
  qed
  then have "\<bar>m * pow2 k - x\<bar> = pow2 k * \<bar>m - x * pow2 (- k)\<bar>"
    using pow2_pos [of k] by (simp add: abs_mult)
  also have "\<dots> \<le> pow2 k * (1 / 2)"
    using assms pow2_pos [of k] by (simp only: mult_le_cancel_left_pos)
  finally show ?thesis by simp
qed


lemma round_double_unfold:
  "0 < p \<Longrightarrow> round_double p q = (m, k) \<Longrightarrow>
   k = binade p q - 52 \<and>
   m = round_half_even (p * 2 ^ nat (- k)) (q * 2 ^ nat k)"
  by (auto simp: round_double_def)

lemma scaled_frac:
  "real (p * 2 ^ nat (- k)) / real (q * 2 ^ nat k) = (real p / real q) * pow2 (- k)"
proof -
  have "real (p * 2 ^ nat (- k)) / real (q * 2 ^ nat k) =
      (real p / real q) * (2 ^ nat (- k) / 2 ^ nat k)"
    by simp
  also have "2 ^ nat (- k) / 2 ^ nat k = pow2 (- k)"
    using pow2_split [of "- k"] by simp
  finally show ?thesis .
qed

lemma round_double_err:
  assumes "0 < p" and "0 < q" and "round_double p q = (m, k)"
  shows "\<bar>real m * pow2 k - real p / real q\<bar> \<le> (real p / real q) / 2 ^ 53"
proof -
  from round_double_unfold [OF assms(1,3)] have k: "k = binade p q - 52"
    and m: "m = round_half_even (p * 2 ^ nat (- k)) (q * 2 ^ nat k)" by blast+
  have Q: "0 < q * 2 ^ nat k" using assms(2) by simp
  from round_half_even_err [OF Q, of "p * 2 ^ nat (- k)"]
  have "\<bar>real m - (real p / real q) * pow2 (- k)\<bar> \<le> 1 / 2"
    unfolding m [symmetric] scaled_frac .
  then have "\<bar>real m * pow2 k - real p / real q\<bar> \<le> pow2 k / 2"
    by (rule scaled_err)
  also have "pow2 k / 2 = pow2 (binade p q) / 2 ^ 53"
    unfolding k by (rule pow2_52)
  also have "\<dots> \<le> (real p / real q) / 2 ^ 53"
    using binade_le [OF assms(1,2)] by (simp add: divide_right_mono)
  finally show ?thesis .
qed


lemma round_double_pos:
  assumes "0 < p" and "0 < q" and "round_double p q = (m, k)"
  shows "0 < m"
proof (rule ccontr)
  assume "\<not> 0 < m"
  then have "m = 0" by simp
  with round_double_err [OF assms] have le: "real p / real q \<le> (real p / real q) / 2 ^ 53"
    by simp
  have pos: "0 < real p / real q" using assms by simp
  have "(real p / real q) / 2 ^ 53 < (real p / real q) / 1"
    by (rule divide_strict_left_mono) (use pos in simp_all)
  with le show False by simp
qed

lemma mant_frac: "real (m * 2 ^ nat k) / real ((2::nat) ^ nat (- k)) = real m * pow2 k"
proof -
  have "real (m * 2 ^ nat k) / real ((2::nat) ^ nat (- k)) = real m * (2 ^ nat k / 2 ^ nat (- k))"
    by simp
  then show ?thesis by (simp only: pow2_split [symmetric])
qed

lemma three_errors:
  fixes n d2 d1 x u :: real
  assumes "\<bar>n - d2\<bar> \<le> 1 / 2" and "\<bar>d2 - 100 * d1\<bar> \<le> 100 * d1 * u" and "\<bar>d1 - x\<bar> \<le> x * u"
    and "0 \<le> u"
  shows "\<bar>n - 100 * x\<bar> \<le> 1 / 2 + 100 * x * u * (2 + u)"
proof -
  from assms(3) have "d1 \<le> x + x * u" by linarith
  then have "d1 * u \<le> (x + x * u) * u" using assms(4) by (rule mult_right_mono)
  with assms(2) have "\<bar>d2 - 100 * d1\<bar> \<le> 100 * ((x + x * u) * u)" by linarith
  with assms(1,3) have "\<bar>n - 100 * x\<bar> \<le> 1 / 2 + 100 * ((x + x * u) * u) + 100 * (x * u)"
    by linarith
  also have "\<dots> = 1 / 2 + 100 * x * u * (2 + u)" by (simp add: algebra_simps)
  finally show ?thesis .
qed


lemma percent_digits_near:
  assumes a: "0 < a" and b: "0 < b"
  shows "\<bar>real (percent_digits a b) - 100 * (real a / real b)\<bar>
           \<le> 1 / 2 + 100 * (real a / real b) * (1 / 2 ^ 53) * (2 + 1 / 2 ^ 53)"
proof -
  obtain m1 k1 where r1: "round_double a b = (m1, k1)" by (cases "round_double a b")
  obtain m2 k2 where r2: "round_double (100 * m1 * 2 ^ nat k1) (2 ^ nat (- k1)) = (m2, k2)"
    by (cases "round_double (100 * m1 * 2 ^ nat k1) (2 ^ nat (- k1))")
  have n: "percent_digits a b = round_half_up (m2 * 2 ^ nat k2) (2 ^ nat (- k2))"
    by (simp only: percent_digits_def r1 r2 prod.case)
  have e1: "\<bar>real m1 * pow2 k1 - real a / real b\<bar> \<le> (real a / real b) * (1 / 2 ^ 53)"
    using round_double_err [OF a b r1] by simp
  have m1: "0 < m1" by (rule round_double_pos [OF a b r1])
  have P: "0 < 100 * m1 * 2 ^ nat k1" using m1 by simp
  have Q: "0 < (2::nat) ^ nat (- k1)" by simp
  have pq: "real (100 * m1 * 2 ^ nat k1) / real ((2::nat) ^ nat (- k1)) = 100 * (real m1 * pow2 k1)"
    using mant_frac [of "100 * m1" k1] by (simp add: mult.assoc)
  have e2: "\<bar>real m2 * pow2 k2 - 100 * (real m1 * pow2 k1)\<bar>
      \<le> 100 * (real m1 * pow2 k1) * (1 / 2 ^ 53)"
    using round_double_err [OF P Q r2] unfolding pq by simp
  have e3: "\<bar>real (round_half_up (m2 * 2 ^ nat k2) (2 ^ nat (- k2))) - real m2 * pow2 k2\<bar> \<le> 1 / 2"
    using round_half_up_err [of "2 ^ nat (- k2)" "m2 * 2 ^ nat k2"]
    unfolding mant_frac by simp
  have u: "(0::real) \<le> 1 / 2 ^ 53" by simp
  show ?thesis
    unfolding n by (rule three_errors [OF e3 e2 e1 u])
qed


lemma percent_digits_zero: "percent_digits 0 b = 0"
  by (simp add: percent_digits_def round_double_def round_half_up_def)

lemma half_gap:
  fixes z b :: int
  assumes "0 < b" and "1 / 2 < real_of_int z / real_of_int b"
  shows "1 / 2 + 1 / (2 * real_of_int b) \<le> real_of_int z / real_of_int b"
proof -
  from assms have "real_of_int b < 2 * real_of_int z" by (simp add: field_simps)
  then have "b < 2 * z" by linarith
  then have "b + 1 \<le> 2 * z" by linarith
  then have "real_of_int b + 1 \<le> 2 * real_of_int z" by linarith
  then have "(real_of_int b + 1) / (2 * real_of_int b) \<le> (2 * real_of_int z) / (2 * real_of_int b)"
    by (rule divide_right_mono) (use assms(1) in simp)
  moreover have "(real_of_int b + 1) / (2 * real_of_int b) = 1 / 2 + 1 / (2 * real_of_int b)"
    using assms(1) by (simp add: field_simps)
  moreover have "(2 * real_of_int z) / (2 * real_of_int b) = real_of_int z / real_of_int b"
    by simp
  ultimately show ?thesis by (simp only:)
qed

lemma small_error:
  fixes a :: real
  assumes "0 \<le> a" and "a < 2 ^ 33"
  shows "200 * a * (1 / 2 ^ 53) * (2 + 1 / 2 ^ 53) < 1"
proof -
  have "200 * a * (1 / 2 ^ 53) * (2 + 1 / 2 ^ 53) \<le> 200 * 2 ^ 33 * (1 / 2 ^ 53) * (2 + 1 / 2 ^ 53)"
    using assms by (intro mult_right_mono mult_left_mono) simp_all
  also have "\<dots> < 1" by simp
  finally show ?thesis .
qed


lemma percent_digits_nearest:
  assumes a: "a < 2 ^ 33" and b: "0 < b"
  shows "\<bar>real (percent_digits a b) - 100 * (real a / real b)\<bar> \<le> 1 / 2"
proof (cases "a = 0")
  case True
  then show ?thesis by (simp add: percent_digits_zero)
next
  case False
  then have a0: "0 < a" by simp
  define n where "n = percent_digits a b"
  define z where "z = \<bar>int n * int b - 100 * int a\<bar>"
  have bi: "0 < int b" using b by simp
  have "real n - 100 * (real a / real b) = (real n * real b - 100 * real a) / real b"
    using b by (simp add: field_simps)
  then have "\<bar>real n - 100 * (real a / real b)\<bar> = \<bar>(real n * real b - 100 * real a) / real b\<bar>"
    by (simp only:)
  also have "\<dots> = \<bar>real n * real b - 100 * real a\<bar> / real b"
    using b by (simp only: abs_divide abs_of_nat)
  also have "\<bar>real n * real b - 100 * real a\<bar> = real_of_int z"
    by (simp add: z_def)
  finally have zb: "\<bar>real n - 100 * (real a / real b)\<bar> = real_of_int z / real_of_int (int b)"
    by simp
  show ?thesis
  proof (rule ccontr)
    assume "\<not> ?thesis"
    then have gt: "1 / 2 < real_of_int z / real_of_int (int b)"
      unfolding n_def [symmetric] zb by simp
    from half_gap [OF bi gt]
    have lo: "1 / 2 + 1 / (2 * real b) \<le> real_of_int z / real_of_int (int b)" by simp
    from percent_digits_near [OF a0 b]
    have hi: "real_of_int z / real_of_int (int b)
        \<le> 1 / 2 + 100 * (real a / real b) * (1 / 2 ^ 53) * (2 + 1 / 2 ^ 53)"
      unfolding n_def [symmetric] zb .
    from lo hi have "1 / (2 * real b) \<le> 100 * (real a / real b) * (1 / 2 ^ 53) * (2 + 1 / 2 ^ 53)"
      by linarith
    then have "1 / (2 * real b) * (2 * real b)
        \<le> 100 * (real a / real b) * (1 / 2 ^ 53) * (2 + 1 / 2 ^ 53) * (2 * real b)"
      by (rule mult_right_mono) simp
    moreover have "1 / (2 * real b) * (2 * real b) = 1" using b by simp
    moreover have "100 * (real a / real b) * (1 / 2 ^ 53) * (2 + 1 / 2 ^ 53) * (2 * real b) =
        200 * real a * (1 / 2 ^ 53) * (2 + 1 / 2 ^ 53)"
      using b by simp
    ultimately have "1 \<le> 200 * real a * (1 / 2 ^ 53) * (2 + 1 / 2 ^ 53)" by (simp only:)
    moreover have "real a < 2 ^ 33"
      using a by (metis of_nat_less_iff of_nat_numeral of_nat_power)
    then have "200 * real a * (1 / 2 ^ 53) * (2 + 1 / 2 ^ 53) < 1"
      by (intro small_error) simp_all
    ultimately show False by linarith
  qed
qed

lemma double_div_val:
  assumes "0 < a" and "0 < b"
  shows "\<bar>double_val (double_div a b) - real_of_int a / real_of_int b\<bar>
           \<le> (real_of_int a / real_of_int b) / 2 ^ 53"
proof -
  obtain m k where r: "round_double (nat a) (nat b) = (m, k)"
    by (cases "round_double (nat a) (nat b)")
  have p: "0 < nat a" "0 < nat b" using assms by simp_all
  have v: "double_val (double_div a b) = real m * pow2 k"
    using assms by (simp add: double_val_def double_div_def r)
  have "real (nat a) = real_of_int a" "real (nat b) = real_of_int b"
    using assms by simp_all
  with round_double_err [OF p r] show ?thesis unfolding v by simp
qed

subsection \<open>The text of a percentage\<close>

lemma read_percentage_toFixed0:
  "read_percentage (toFixed0 x @ ''%'') =
     Some (sign_bit x \<and> mantissa x \<noteq> 0,
           round_half_up (mantissa x * 2 ^ nat (exponent x)) (2 ^ nat (- exponent x)))"
  by (simp add: read_percentage_def toFixed0_def butlast_append decimal_nonempty
      read_decimal_decimal hd_decimal)

lemma percentage_of_read:
  assumes w: "0 < whole"
  shows "read_percentage (percentage_of part whole) =
           Some (part < 0, percent_digits (nat \<bar>part\<bar>) (nat whole))"
proof -
  let ?a = "nat \<bar>part\<bar>" and ?b = "nat whole"
  have b: "0 < ?b" using w by simp
  have bw: "nat \<bar>whole\<bar> = ?b" using w by simp
  obtain m1 k1 where r1: "round_double ?a ?b = (m1, k1)" by (cases "round_double ?a ?b")
  obtain m2 k2 where r2: "round_double (100 * m1 * 2 ^ nat k1) (2 ^ nat (- k1)) = (m2, k2)"
    by (cases "round_double (100 * m1 * 2 ^ nat k1) (2 ^ nat (- k1))")
  have d1: "double_div part whole = \<lparr>sign_bit = part < 0, mantissa = m1, exponent = k1\<rparr>"
    using w by (simp add: double_div_def bw r1)
  have d2: "double_times_100 (double_div part whole) =
      \<lparr>sign_bit = part < 0, mantissa = m2, exponent = k2\<rparr>"
    by (simp add: double_times_100_def d1 r2)
  have n: "percent_digits ?a ?b = round_half_up (m2 * 2 ^ nat k2) (2 ^ nat (- k2))"
    by (simp only: percent_digits_def r1 r2 prod.case)
  have m2: "part < 0 \<Longrightarrow> m2 \<noteq> 0"
  proof -
    assume "part < 0"
    then have a: "0 < ?a" by simp
    have "0 < m1" by (rule round_double_pos [OF a b r1])
    then have P: "0 < 100 * m1 * 2 ^ nat k1" by simp
    have Q: "0 < (2::nat) ^ nat (- k1)" by simp
    from round_double_pos [OF P Q r2] show "m2 \<noteq> 0" by simp
  qed
  have "percentage_of part whole = toFixed0 (double_times_100 (double_div part whole)) @ ''%''"
    using w by (simp add: percentage_of_def)
  then have "read_percentage (percentage_of part whole) =
      Some (part < 0 \<and> m2 \<noteq> 0, round_half_up (m2 * 2 ^ nat k2) (2 ^ nat (- k2)))"
    by (simp only: read_percentage_toFixed0 d2 double.select_convs)
  with m2 n show ?thesis by auto
qed

lemma percentage_of_nearest:
  assumes w: "0 < whole" and p: "\<bar>part\<bar> < 2 ^ 33"
  shows "displays_nearest_percent part whole (percentage_of part whole)"
proof -
  let ?a = "nat \<bar>part\<bar>" and ?b = "nat whole"
  let ?v = "(real_of_int part / real_of_int whole) * 100"
  have a: "?a < 2 ^ 33" using p by (simp add: nat_less_iff)
  have b: "0 < ?b" using w by simp
  have ra: "real ?a = \<bar>real_of_int part\<bar>" by simp
  have rb: "real ?b = real_of_int whole" using w by simp
  have "\<bar>?v\<bar> = 100 * (\<bar>real_of_int part\<bar> / real_of_int whole)"
    using w by (simp add: abs_mult)
  then have av: "\<bar>?v\<bar> = 100 * (real ?a / real ?b)" by (simp only: ra rb)
  have sg: "(part < 0) = (?v < 0)"
    using w by (simp add: divide_less_0_iff mult_less_0_iff)
  from percent_digits_nearest [OF a b]
  have "\<bar>real (percent_digits ?a ?b) - \<bar>?v\<bar>\<bar> \<le> 1 / 2" unfolding av .
  with sg show ?thesis
    unfolding displays_nearest_percent_def percentage_of_read [OF w]
    by (simp only: option.case prod.case simp_thms)
qed

lemma percentage_of_zero: "percentage_of part 0 = ''0%''"
  by (simp add: percentage_of_def)

lemma percentage_of_spec:
  assumes "0 \<le> whole" and "\<bar>part\<bar> < 2 ^ 33"
  shows "if whole = 0 then percentage_of part whole = ''0%''
         else displays_nearest_percent part whole (percentage_of part whole)"
  using assms by (simp add: percentage_of_zero percentage_of_nearest)

section \<open>The component's steps\<close>

lemmas effect_defs =
  setSummary_effect_def trigger_effect_def debouncedUpdate_def debouncedUpdate_cancel_def
  fire_def stableCrawlData_def

lemmas eval_defs =
  run_def mount_def effect_defs wait_def Let_def initialState_def summary_view_def
  reducer_UPDATE_DATA or_zero_def indexability_chain_def internal_links_def external_links_def
  page_def new_Set_def Set_add_def

lemma run_append: "run c (evs @ evs') = run (run c evs) evs'"
  by (simp add: run_def)

lemma mount_state: "state (mount t d) = initialState"
  by (simp add: mount_def effect_defs)

lemma step_isProcessing:
  "\<not> isProcessing (state c) \<Longrightarrow> \<not> isProcessing (state (step c ev))"
  by (cases ev) (auto simp: effect_defs Let_def reducer_UPDATE_DATA split: option.splits)

lemma run_isProcessing:
  "\<not> isProcessing (state c) \<Longrightarrow> \<not> isProcessing (state (run c evs))"
  unfolding run_def
  by (induction evs arbitrary: c) (simp_all add: step_isProcessing)

lemma mount_isProcessing: "\<not> isProcessing (state (mount t d))"
  by (simp add: mount_state initialState_def)

lemma step_state:
  "state (step c ev) = state c \<or> (\<exists>data. state (step c ev) = reducer (state c) (UPDATE_DATA data))"
  by (cases ev) (auto simp: effect_defs Let_def split: option.splits)

lemma run_state: "\<exists>acts. state (run c evs) = foldl reducer (state c) acts"
proof (induction evs arbitrary: c)
  case Nil
  have "state (run c []) = foldl reducer (state c) []" by (simp add: run_def)
  then show ?case by blast
next
  case (Cons ev evs)
  from Cons.IH [of "step c ev"] obtain acts where
    acts: "state (run (step c ev) evs) = foldl reducer (state (step c ev)) acts" by blast
  from step_state [of c ev] show ?case
  proof
    assume "state (step c ev) = state c"
    with acts have "state (run c (ev # evs)) = foldl reducer (state c) acts"
      by (simp add: run_def)
    then show ?thesis by blast
  next
    assume "\<exists>data. state (step c ev) = reducer (state c) (UPDATE_DATA data)"
    then obtain data where "state (step c ev) = reducer (state c) (UPDATE_DATA data)" by blast
    with acts have "state (run c (ev # evs)) = foldl reducer (state c) (UPDATE_DATA data # acts)"
      by (simp add: run_def)
    then show ?thesis by blast
  qed
qed

lemma component_prefix:
  "prefix (internalLinks (state (run (mount t d) evs)))
     (internalLinks (state (run (mount t d) (evs @ evs')))) \<and>
   prefix (externalLinks (state (run (mount t d) evs)))
     (externalLinks (state (run (mount t d) (evs @ evs'))))"
proof -
  from run_state [of "mount t d" evs] obtain acts where
    a: "state (run (mount t d) evs) = foldl reducer initialState acts"
    by (auto simp: mount_state)
  from run_state [of "run (mount t d) evs" evs'] obtain later where
    b: "state (run (mount t d) (evs @ evs')) = foldl reducer (state (run (mount t d) evs)) later"
    by (auto simp: run_append)
  show ?thesis
    unfolding b unfolding a by (rule reachable_prefix)
qed

lemma step_links_subset:
  "set (internalLinks (state c)) \<subseteq> set (internalLinks (state (step c ev))) \<and>
   set (externalLinks (state c)) \<subseteq> set (externalLinks (state (step c ev)))"
  using reducer_links_subset [of "state c"]
  by (cases ev) (auto simp: effect_defs Let_def split: option.splits)

lemma run_links_subset:
  "set (internalLinks (state c)) \<subseteq> set (internalLinks (state (run c evs))) \<and>
   set (externalLinks (state c)) \<subseteq> set (externalLinks (state (run c evs)))"
proof (induction evs arbitrary: c)
  case Nil
  show ?case by (simp add: run_def)
next
  case (Cons ev evs)
  from step_links_subset [of c ev] Cons.IH [of "step c ev"] show ?case
    unfolding run_def foldl.simps by blast
qed

subsection \<open>Time passing\<close>

lemma advance_idle:
  "timer c = None \<Longrightarrow>
   timer (run c (map Advance ns)) = None \<and>
   folds (run c (map Advance ns)) = folds c \<and>
   state (run c (map Advance ns)) = state c \<and>
   crawlData (run c (map Advance ns)) = crawlData c \<and>
   published (run c (map Advance ns)) = published c \<and>
   mounted (run c (map Advance ns)) = mounted c"
  unfolding run_def
  by (induction ns arbitrary: c) (simp_all add: Let_def)

lemma fire_step:
  assumes "mounted c" and "timer c = Some (deadline, data)" and "deadline \<le> now c + n"
  shows "timer (step c (Advance n)) = None"
    "folds (step c (Advance n)) = folds c @ [(now c + n, data)]"
    "state (step c (Advance n)) = reducer (state c) (UPDATE_DATA data)"
    "crawlData (step c (Advance n)) = crawlData c"
    "mounted (step c (Advance n))"
    "published (step c (Advance n)) =
       published c @ [summary_view (reducer (state c) (UPDATE_DATA data)) (stableCrawlData c)]"
  using assms by (simp_all add: effect_defs Let_def reducer_UPDATE_DATA)

lemma advance_fires:
  "mounted c \<Longrightarrow> timer c = Some (deadline, data) \<Longrightarrow> now c < deadline \<Longrightarrow>
   deadline \<le> now c + sum_list ns \<Longrightarrow>
   \<exists>t. folds (run c (map Advance ns)) = folds c @ [(t, data)] \<and> deadline \<le> t \<and>
       timer (run c (map Advance ns)) = None \<and>
       state (run c (map Advance ns)) = reducer (state c) (UPDATE_DATA data) \<and>
       crawlData (run c (map Advance ns)) = crawlData c \<and>
       mounted (run c (map Advance ns)) \<and>
       published (run c (map Advance ns)) =
         published c @ [summary_view (reducer (state c) (UPDATE_DATA data)) (stableCrawlData c)]"
proof (induction ns arbitrary: c)
  case Nil
  then show ?case by simp
next
  case (Cons n ns)
  show ?case
  proof (cases "deadline \<le> now c + n")
    case True
    let ?c1 = "step c (Advance n)"
    note c1 = fire_step [OF Cons.prems(1,2) True]
    from advance_idle [OF c1(1), of ns] c1 True show ?thesis
      by (simp add: run_def del: step.simps)
  next
    case False
    let ?c1 = "step c (Advance n)"
    from False Cons.prems have c1:
      "mounted ?c1" "timer ?c1 = Some (deadline, data)" "now ?c1 < deadline"
      "deadline \<le> now ?c1 + sum_list ns" "folds ?c1 = folds c" "state ?c1 = state c"
      "crawlData ?c1 = crawlData c" "published ?c1 = published c"
      by (simp_all add: Let_def)
    from Cons.IH [OF c1(1-4)] c1(5-8) show ?thesis
      by (simp add: run_def stableCrawlData_def del: step.simps)
  qed
qed

subsection \<open>The scheduler's invariant\<close>

lemma scheduler_inv_mount: "scheduler_inv (mount t d)"
  by (simp add: scheduler_inv_def mount_def effect_defs wait_def initialState_def)

lemma scheduler_inv_changed:
  "scheduler_inv c \<Longrightarrow> scheduler_inv (step c (CrawlDataChanged d))"
  by (simp add: scheduler_inv_def effect_defs wait_def)

lemma scheduler_inv_advance:
  assumes "scheduler_inv c"
  shows "scheduler_inv (step c (Advance n))"
proof (cases "timer c")
  case None
  with assms show ?thesis
    by (simp add: scheduler_inv_def Let_def stableCrawlData_def)
next
  case (Some p)
  obtain deadline data where p: "p = (deadline, data)" by (cases p)
  from assms Some p have c: "mounted c" "now c < deadline" "deadline \<le> now c + wait"
    "data = stableCrawlData c" "\<not> isProcessing (state c)" "published c \<noteq> []"
    "last (published c) = summary_view (state c) (stableCrawlData c)"
    by (simp_all add: scheduler_inv_def)
  show ?thesis
  proof (cases "deadline \<le> now c + n")
    case True
    note f = fire_step [OF c(1) Some [unfolded p] True]
    have s: "stableCrawlData (step c (Advance n)) = stableCrawlData c"
      by (simp only: stableCrawlData_def f(4))
    have "\<exists>S. state (step c (Advance n)) = reducer S (UPDATE_DATA (stableCrawlData c))"
      unfolding f(3) c(4) by blast
    then show ?thesis
      unfolding scheduler_inv_def s
      by (simp add: f c(4) reducer_UPDATE_DATA del: step.simps)
  next
    case False
    with c Some p show ?thesis
      by (simp add: scheduler_inv_def Let_def stableCrawlData_def)
  qed
qed

lemma scheduler_inv_step:
  "scheduler_inv c \<Longrightarrow> ev \<noteq> Unmount \<Longrightarrow> scheduler_inv (step c ev)"
  by (cases ev) (simp_all add: scheduler_inv_changed scheduler_inv_advance del: step.simps)

lemma scheduler_inv_run:
  "scheduler_inv c \<Longrightarrow> Unmount \<notin> set evs \<Longrightarrow> scheduler_inv (run c evs)"
  unfolding run_def
  by (induction evs arbitrary: c) (auto simp: scheduler_inv_step simp del: step.simps)

lemma scheduler_inv_advances:
  "scheduler_inv c \<Longrightarrow> scheduler_inv (run c (map Advance ns))"
  by (rule scheduler_inv_run) auto

lemma final_fold_runs:
  assumes inv: "scheduler_inv c" and quiet: "wait \<le> sum_list ns"
  shows "timer (run c (map Advance ns)) = None"
proof (cases "timer c")
  case None
  with advance_idle [OF None, of ns] show ?thesis by simp
next
  case (Some p)
  obtain deadline data where p: "p = (deadline, data)" by (cases p)
  from inv Some p have c: "mounted c" "now c < deadline" "deadline \<le> now c + wait"
    by (simp_all add: scheduler_inv_def)
  from c(3) quiet have "deadline \<le> now c + sum_list ns" by simp
  from advance_fires [OF c(1) Some [unfolded p] c(2) this] show ?thesis
    by blast
qed

lemma scheduler_inv_idle:
  assumes "scheduler_inv c" and "timer c = None"
  shows "folds c \<noteq> [] \<and> snd (last (folds c)) = stableCrawlData c \<and>
         (\<exists>S. state c = reducer S (UPDATE_DATA (stableCrawlData c))) \<and>
         published c \<noteq> [] \<and>
         last (published c) = summary_view (state c) (stableCrawlData c)"
  using assms by (simp add: scheduler_inv_def)

lemma changed_step:
  "mounted c \<Longrightarrow>
   mounted (step c (CrawlDataChanged d)) \<and>
   timer (step c (CrawlDataChanged d)) = Some (now c + wait, case d of None \<Rightarrow> [] | Some x \<Rightarrow> x) \<and>
   now (step c (CrawlDataChanged d)) = now c \<and>
   folds (step c (CrawlDataChanged d)) = folds c \<and>
   state (step c (CrawlDataChanged d)) = state c \<and>
   crawlData (step c (CrawlDataChanged d)) = d"
  by (simp add: effect_defs)

lemma changed_then_wait:
  assumes "mounted c" and "n < wait"
  shows "mounted (step (step c (CrawlDataChanged d)) (Advance n)) \<and>
         now (step (step c (CrawlDataChanged d)) (Advance n)) = now c + n \<and>
         folds (step (step c (CrawlDataChanged d)) (Advance n)) = folds c \<and>
         state (step (step c (CrawlDataChanged d)) (Advance n)) = state c"
proof -
  let ?c1 = "step c (CrawlDataChanged d)"
  note c1 = changed_step [OF assms(1), of d]
  from c1 assms(2) show ?thesis
    by (simp add: Let_def del: step.simps(1))
qed

lemma burst_state:
  assumes "mounted c"
  shows "mounted (run c [CrawlDataChanged d0, Advance 50, CrawlDataChanged d1, Advance 50,
            CrawlDataChanged d2, Advance 50, CrawlDataChanged d3]) \<and>
    timer (run c [CrawlDataChanged d0, Advance 50, CrawlDataChanged d1, Advance 50,
            CrawlDataChanged d2, Advance 50, CrawlDataChanged d3]) =
       Some (now c + 450, case d3 of None \<Rightarrow> [] | Some d \<Rightarrow> d) \<and>
    now (run c [CrawlDataChanged d0, Advance 50, CrawlDataChanged d1, Advance 50,
            CrawlDataChanged d2, Advance 50, CrawlDataChanged d3]) = now c + 150 \<and>
    folds (run c [CrawlDataChanged d0, Advance 50, CrawlDataChanged d1, Advance 50,
            CrawlDataChanged d2, Advance 50, CrawlDataChanged d3]) = folds c \<and>
    state (run c [CrawlDataChanged d0, Advance 50, CrawlDataChanged d1, Advance 50,
            CrawlDataChanged d2, Advance 50, CrawlDataChanged d3]) = state c \<and>
    crawlData (run c [CrawlDataChanged d0, Advance 50, CrawlDataChanged d1, Advance 50,
            CrawlDataChanged d2, Advance 50, CrawlDataChanged d3]) = d3"
proof -
  have w: "(50::nat) < wait" by (simp add: wait_def)
  let ?c1 = "step (step c (CrawlDataChanged d0)) (Advance 50)"
  let ?c2 = "step (step ?c1 (CrawlDataChanged d1)) (Advance 50)"
  let ?c3 = "step (step ?c2 (CrawlDataChanged d2)) (Advance 50)"
  note s1 = changed_then_wait [OF assms w, of d0]
  from s1 have m1: "mounted ?c1" by blast
  note s2 = changed_then_wait [OF m1 w, of d1]
  from s2 have m2: "mounted ?c2" by blast
  note s3 = changed_then_wait [OF m2 w, of d2]
  from s3 have m3: "mounted ?c3" by blast
  note s4 = changed_step [OF m3, of d3]
  have r: "run c [CrawlDataChanged d0, Advance 50, CrawlDataChanged d1, Advance 50,
            CrawlDataChanged d2, Advance 50, CrawlDataChanged d3] = step ?c3 (CrawlDataChanged d3)"
    by (simp only: run_def foldl.simps)
  from s1 s2 s3 s4 show ?thesis
    unfolding r by (simp add: wait_def del: step.simps)
qed

subsection \<open>What is published\<close>

lemma reducer_count_nonneg:
  "0 \<le> totalIndexablePages S \<Longrightarrow> 0 \<le> totalIndexablePages (reducer S a)"
  by (cases a) (simp_all add: reducer_UPDATE_DATA)

lemma reducer_count_le: "totalIndexablePages (reducer S (UPDATE_DATA data)) \<le> int (length data)"
  by (simp add: reducer_UPDATE_DATA)

lemma step_published_nonneg:
  assumes "0 \<le> totalIndexablePages (state c)" and "list_all view_fields_nonneg (published c)"
  shows "0 \<le> totalIndexablePages (state (step c ev)) \<and>
         list_all view_fields_nonneg (published (step c ev))"
  using assms
  by (cases ev)
     (auto simp: effect_defs Let_def summary_view_def view_fields_nonneg_def reducer_UPDATE_DATA
           split: option.splits)

lemma run_published_nonneg:
  "0 \<le> totalIndexablePages (state c) \<Longrightarrow> list_all view_fields_nonneg (published c) \<Longrightarrow>
   0 \<le> totalIndexablePages (state (run c evs)) \<and>
   list_all view_fields_nonneg (published (run c evs))"
  unfolding run_def
  by (induction evs arbitrary: c) (simp_all add: step_published_nonneg)

lemma published_five_fields_nonneg:
  "list_all view_fields_nonneg (published (run (mount t d) evs))"
proof -
  have "0 \<le> totalIndexablePages (state (mount t d))"
    by (simp add: mount_state initialState_def)
  moreover have "list_all view_fields_nonneg (published (mount t d))"
    by (simp add: mount_def effect_defs summary_view_def view_fields_nonneg_def initialState_def)
  ultimately show ?thesis using run_published_nonneg by blast
qed

lemma fire_view_nonneg:
  assumes "scheduler_inv c" and "timer c = Some (deadline, data)" and "deadline \<le> now c + dt"
  shows "published (step c (Advance dt)) =
           published c @ [summary_view (reducer (state c) (UPDATE_DATA data)) data] \<and>
         0 \<le> notIndexablePages (summary_view (reducer (state c) (UPDATE_DATA data)) data)"
proof -
  from assms(1,2) have m: "mounted c" and d: "data = stableCrawlData c"
    by (simp_all add: scheduler_inv_def)
  have "published (step c (Advance dt)) =
          published c @ [summary_view (reducer (state c) (UPDATE_DATA data)) data]"
    using m d assms(2,3) by (simp add: effect_defs Let_def reducer_UPDATE_DATA)
  moreover have "0 \<le> notIndexablePages (summary_view (reducer (state c) (UPDATE_DATA data)) data)"
    using reducer_count_le [of "state c" data] by (simp add: summary_view_def)
  ultimately show ?thesis by simp
qed

section \<open>Claims about the fold\<close>

text \<open>
  C2, as the reducer has it. Folding an empty batch does not leave every state as it
  was: the reducer starts its counter at 0 on every call, so a state that counts one
  indexable page counts none after an empty batch. The state below is the one reached
  from \<open>initialState\<close> by folding one record of score 0.9.
\<close>

theorem fold_empty_batch_resets_count:
  "totalIndexablePages (reducer initialState (UPDATE_DATA [page [] [] 0.9])) = 1 \<and>
   totalIndexablePages
     (reducer (reducer initialState (UPDATE_DATA [page [] [] 0.9])) (UPDATE_DATA [])) = 0 \<and>
   reducer (reducer initialState (UPDATE_DATA [page [] [] 0.9])) (UPDATE_DATA []) \<noteq>
     reducer initialState (UPDATE_DATA [page [] [] 0.9])"
  by (simp add: reducer_UPDATE_DATA or_zero_def indexability_chain_def page_def)

text \<open>
  C2, amended. For every state \<open>S\<close>, folding an empty batch is idempotent, keeps both
  link sets as they are (as sets for any \<open>S\<close>; as arrays, element by element, for every
  state reachable from \<open>initialState\<close>) and sets the indexable-page count to 0.
\<close>

theorem fold_empty_batch:
  "reducer (reducer S (UPDATE_DATA [])) (UPDATE_DATA []) = reducer S (UPDATE_DATA []) \<and>
   set (internalLinks (reducer S (UPDATE_DATA []))) = set (internalLinks S) \<and>
   set (externalLinks (reducer S (UPDATE_DATA []))) = set (externalLinks S) \<and>
   totalIndexablePages (reducer S (UPDATE_DATA [])) = 0 \<and>
   internalLinks (reducer (foldl reducer initialState acts) (UPDATE_DATA [])) =
     internalLinks (foldl reducer initialState acts) \<and>
   externalLinks (reducer (foldl reducer initialState acts) (UPDATE_DATA [])) =
     externalLinks (foldl reducer initialState acts)"
  using reachable_distinct [of acts]
  by (simp add: reducer_empty new_Set_idem set_new_Set new_Set_distinct)

text \<open>
  C4. Whatever the prior state, the count the fold returns is the number of records of
  the batch whose score, with an absent score read as 0, is strictly greater than 0.5.
  A record of score exactly 0.5 is not counted, one of score 0.5001 is, and a record
  without an \<^verbatim>\<open>indexability\<close> object, or with one that holds no number, is not.
\<close>

theorem indexable_threshold:
  "totalIndexablePages (reducer S (UPDATE_DATA batch)) = int (length (filter spec_indexable batch)) \<and>
   totalIndexablePages (reducer S (UPDATE_DATA [page ins exts 0.5])) = 0 \<and>
   totalIndexablePages (reducer S (UPDATE_DATA [page ins exts 0.5001])) = 1 \<and>
   totalIndexablePages (reducer S (UPDATE_DATA [bare_page])) = 0 \<and>
   totalIndexablePages
     (reducer S (UPDATE_DATA [\<lparr>anchor_links = al, indexability = Some \<lparr>indexability_inner = None\<rparr>\<rparr>])) = 0"
  by (simp add: reducer_count_spec spec_indexable_page spec_indexable_bare)
     (simp add: spec_indexable_def spec_indexabilityScore_def indexability_chain_def)

text \<open>
  C5, as the reducer has it. The result of a fold is not a function of the snapshot
  alone: folding the empty snapshot into \<open>initialState\<close> gives no internal link, folding
  it into the state reached after a record that links to \<^verbatim>\<open>/a\<close> keeps that link.
\<close>

theorem fold_not_function_of_snapshot:
  "internalLinks (reducer initialState (UPDATE_DATA [])) = [] \<and>
   internalLinks
     (reducer (reducer initialState (UPDATE_DATA [page [''/a''] [] 0])) (UPDATE_DATA [])) = [''/a''] \<and>
   reducer (reducer initialState (UPDATE_DATA [page [''/a''] [] 0])) (UPDATE_DATA []) \<noteq>
     reducer initialState (UPDATE_DATA [])"
  by (simp add: reducer_UPDATE_DATA initialState_def new_Set_def Set_add_def
        internal_links_def external_links_def page_def)

text \<open>
  C5, amended. The fold is a function of the prior state and the snapshot. The
  indexable-page count it returns depends on the snapshot alone; each link set it
  returns is the prior state's link set together with the links of the snapshot's
  records. When the component starts from \<open>initialState\<close> and every snapshot folded
  before is a prefix of the final one (records only arrive, however they were batched),
  the state after the final fold is the state that folding the final snapshot alone
  into \<open>initialState\<close> gives.
\<close>

theorem fold_depends_on_prior_links:
  "totalIndexablePages (reducer S (UPDATE_DATA snap)) =
     totalIndexablePages (reducer S' (UPDATE_DATA snap)) \<and>
   set (internalLinks (reducer S (UPDATE_DATA snap))) =
     set (internalLinks S) \<union> (\<Union>item\<in>set snap. set (internal_links item)) \<and>
   set (externalLinks (reducer S (UPDATE_DATA snap))) =
     set (externalLinks S) \<union> (\<Union>item\<in>set snap. set (external_links item)) \<and>
   ((\<forall>b\<in>set batches. prefix b snap) \<longrightarrow>
      foldl reducer initialState (map UPDATE_DATA batches @ [UPDATE_DATA snap]) =
        reducer initialState (UPDATE_DATA snap))"
  using batching_independent [of batches snap]
  by (simp add: reducer_UPDATE_DATA set_foldl_Set_add set_new_Set)

theorem fold_batching_witness:
  "prefix [page [''/a''] [] 0] [page [''/a''] [] 0, page [''/a'', ''/b''] [''/c''] 1] \<and>
   foldl reducer initialState
     (map UPDATE_DATA [[page [''/a''] [] 0]] @
      [UPDATE_DATA [page [''/a''] [] 0, page [''/a'', ''/b''] [''/c''] 1]]) =
     reducer initialState (UPDATE_DATA [page [''/a''] [] 0, page [''/a'', ''/b''] [''/c''] 1])"
  using fold_depends_on_prior_links
    [of initialState "[page [''/a''] [] 0, page [''/a'', ''/b''] [''/c''] 1]"
        initialState "[[page [''/a''] [] 0]]"]
  by simp

text \<open>
  C7. In one session, that is from \<open>initialState\<close> on, every URL that a link array
  holds after some folds is still there after any further folds, and the array is no
  shorter. The same holds of the reducer state of the mounted component across any
  further events.
\<close>

theorem link_sets_never_shrink:
  "set (internalLinks (foldl reducer initialState acts))
     \<subseteq> set (internalLinks (foldl reducer (foldl reducer initialState acts) later)) \<and>
   set (externalLinks (foldl reducer initialState acts))
     \<subseteq> set (externalLinks (foldl reducer (foldl reducer initialState acts) later)) \<and>
   length (internalLinks (foldl reducer initialState acts))
     \<le> length (internalLinks (foldl reducer (foldl reducer initialState acts) later)) \<and>
   length (externalLinks (foldl reducer initialState acts))
     \<le> length (externalLinks (foldl reducer (foldl reducer initialState acts) later)) \<and>
   set (internalLinks (state (run (mount t d) evs)))
     \<subseteq> set (internalLinks (state (run (mount t d) (evs @ evs')))) \<and>
   set (externalLinks (state (run (mount t d) evs)))
     \<subseteq> set (externalLinks (state (run (mount t d) (evs @ evs')))) \<and>
   length (internalLinks (state (run (mount t d) evs)))
     \<le> length (internalLinks (state (run (mount t d) (evs @ evs')))) \<and>
   length (externalLinks (state (run (mount t d) evs)))
     \<le> length (externalLinks (state (run (mount t d) (evs @ evs'))))"
  using reachable_prefix [of acts later] component_prefix [of t d evs evs']
  by (simp add: set_mono_prefix prefix_length_le)

section \<open>Claims about the displayed rows\<close>

text \<open>
  C8. An array holds fewer than \<open>2 ^ 32\<close> elements, and the count of indexable pages is
  that of a fold over an array (\<open>reducer_count_le\<close>); for such lengths and counts: the rows
  \<^verbatim>\<open>Pages crawled\<close> and \<^verbatim>\<open>Total Links Found\<close> show the fixed text \<^verbatim>\<open>100%\<close>, and each
  of the four rows whose percentage is computed (internal links and external links over
  all links, indexable and not indexable pages over the pages crawled) shows exactly
  \<^verbatim>\<open>0%\<close> when its denominator is 0, and otherwise a text that reads as a whole number
  nearest to \<open>(part / whole) * 100\<close>. The percentage is computed in doubles, as the
  source does: where the exact value lies halfway between two whole numbers the text is
  one of the two (23 of 40 shows \<^verbatim>\<open>57%\<close>, 17 of 40 shows \<^verbatim>\<open>43%\<close>).
\<close>

theorem percentages_nearest_percent:
  assumes "length (internalLinks s) < 2 ^ 32" and "length (externalLinks s) < 2 ^ 32"
    and "length d < 2 ^ 32" and "\<bar>totalIndexablePages s\<bar> < 2 ^ 32"
  shows
  "map percentage (take 2 (summaryData s d)) = [''100%'', ''100%''] \<and>
   map label (drop 2 (summaryData s d)) =
     [''Total Internal Links'', ''Total External Links'',
      ''Total Indexable Pages'', ''Total Not Indexable Pages''] \<and>
   (if int (length (internalLinks s)) + int (length (externalLinks s)) = 0
    then percentage (summaryData s d ! 2) = ''0%''
    else displays_nearest_percent (int (length (internalLinks s)))
           (int (length (internalLinks s)) + int (length (externalLinks s)))
           (percentage (summaryData s d ! 2))) \<and>
   (if int (length (internalLinks s)) + int (length (externalLinks s)) = 0
    then percentage (summaryData s d ! 3) = ''0%''
    else displays_nearest_percent (int (length (externalLinks s)))
           (int (length (internalLinks s)) + int (length (externalLinks s)))
           (percentage (summaryData s d ! 3))) \<and>
   (if int (length d) = 0
    then percentage (summaryData s d ! 4) = ''0%''
    else displays_nearest_percent (totalIndexablePages s) (int (length d))
           (percentage (summaryData s d ! 4))) \<and>
   (if int (length d) = 0
    then percentage (summaryData s d ! 5) = ''0%''
    else displays_nearest_percent (int (length d) - totalIndexablePages s) (int (length d))
           (percentage (summaryData s d ! 5)))"
proof -
  have rows:
    "percentage (summaryData s d ! 2) =
       percentage_of (int (length (internalLinks s)))
         (int (length (internalLinks s)) + int (length (externalLinks s)))"
    "percentage (summaryData s d ! 3) =
       percentage_of (int (length (externalLinks s)))
         (int (length (internalLinks s)) + int (length (externalLinks s)))"
    "percentage (summaryData s d ! 4) =
       percentage_of (totalIndexablePages s) (int (length d))"
    "percentage (summaryData s d ! 5) =
       percentage_of (int (length d) - totalIndexablePages s) (int (length d))"
    by (simp_all add: summaryData_def totalPagesCrawled_def totalNotIndexablePages_def)
  have fixed: "map percentage (take 2 (summaryData s d)) = [''100%'', ''100%'']"
    by (simp add: summaryData_def)
  have labels: "map label (drop 2 (summaryData s d)) =
     [''Total Internal Links'', ''Total External Links'',
      ''Total Indexable Pages'', ''Total Not Indexable Pages'']"
    by (simp add: summaryData_def)
  have il: "int (length (internalLinks s)) < 2 ^ 32"
    using assms(1) by (metis of_nat_less_iff of_nat_numeral of_nat_power)
  have el: "int (length (externalLinks s)) < 2 ^ 32"
    using assms(2) by (metis of_nat_less_iff of_nat_numeral of_nat_power)
  have ld: "int (length d) < 2 ^ 32"
    using assms(3) by (metis of_nat_less_iff of_nat_numeral of_nat_power)
  have w1: "0 \<le> int (length (internalLinks s)) + int (length (externalLinks s))" by simp
  have w2: "0 \<le> int (length d)" by simp
  have p2: "\<bar>int (length (internalLinks s))\<bar> < 2 ^ 33" using il by simp
  have p3: "\<bar>int (length (externalLinks s))\<bar> < 2 ^ 33" using el by simp
  have p4: "\<bar>totalIndexablePages s\<bar> < 2 ^ 33" using assms(4) by simp
  have p5: "\<bar>int (length d) - totalIndexablePages s\<bar> < 2 ^ 33" using ld assms(4) by simp
  show ?thesis
    unfolding rows
    by (intro conjI fixed labels percentage_of_spec w1 w2 p2 p3 p4 p5)
qed

lemma sample_binade: "binade 23 40 = - 1"
  by (simp add: binade_def ilog2.simps)

lemma sample_quotient:
  "double_div 23 40 = \<lparr>sign_bit = False, mantissa = 5179139571476070, exponent = - 53\<rparr>"
  by (simp add: double_div_def round_double_def sample_binade round_half_even_def)

lemma sample_ilog2: "ilog2 517913957147607000 = 58" "ilog2 9007199254740992 = 53"
  by (simp_all add: ilog2.simps)

lemma sample_binade_product: "binade 517913957147607000 9007199254740992 = 5"
  by (simp add: binade_def sample_ilog2)

lemma sample_product:
  "double_times_100 (double_div 23 40) =
     \<lparr>sign_bit = False, mantissa = 8092405580431359, exponent = - 47\<rparr>"
  by (simp add: double_times_100_def sample_quotient round_double_def sample_binade_product
      round_half_even_def)

lemma sample_percentage: "percentage_of 23 40 = ''57%''"
  by (simp add: percentage_of_def sample_product toFixed0_def round_half_up_def
      decimal.simps digit_char_def)

theorem percentages_nearest_percent_witness:
  "length (replicate 23 ''/a'') < 2 ^ 32 \<and> length (replicate 17 ''/b'') < 2 ^ 32 \<and>
   length (replicate 3 bare_page) < 2 ^ 32 \<and> \<bar>1::int\<bar> < 2 ^ 32 \<and>
   percentage (summaryData
      \<lparr>internalLinks = replicate 23 ''/a'', externalLinks = replicate 17 ''/b'',
       totalIndexablePages = 1, isProcessing = False\<rparr> (replicate 3 bare_page) ! 2) = ''57%'' \<and>
   displays_nearest_percent 23 40 ''57%'' \<and>
   length ([]::string list) < 2 ^ 32 \<and> length ([]::CrawlDataItem list) < 2 ^ 32 \<and>
   percentage (summaryData initialState [] ! 2) = ''0%'' \<and>
   percentage (summaryData initialState [] ! 5) = ''0%''"
proof -
  let ?s = "\<lparr>internalLinks = replicate 23 ''/a'', externalLinks = replicate 17 ''/b'',
             totalIndexablePages = 1, isProcessing = False\<rparr>"
  let ?d = "replicate 3 bare_page"
  have h: "length (internalLinks ?s) < 2 ^ 32" "length (externalLinks ?s) < 2 ^ 32"
    "length ?d < 2 ^ 32" "\<bar>totalIndexablePages ?s\<bar> < 2 ^ 32"
    by simp_all
  have row: "percentage (summaryData ?s ?d ! 2) = ''57%''"
    by (simp add: summaryData_def sample_percentage)
  from percentages_nearest_percent [OF h]
  have "if int (length (internalLinks ?s)) + int (length (externalLinks ?s)) = 0
    then percentage (summaryData ?s ?d ! 2) = ''0%''
    else displays_nearest_percent (int (length (internalLinks ?s)))
           (int (length (internalLinks ?s)) + int (length (externalLinks ?s)))
           (percentage (summaryData ?s ?d ! 2))"
    by blast
  then have near: "displays_nearest_percent 23 40 ''57%''"
    unfolding row by simp
  have h0: "length (internalLinks initialState) < 2 ^ 32"
    "length (externalLinks initialState) < 2 ^ 32"
    "length ([]::CrawlDataItem list) < 2 ^ 32" "\<bar>totalIndexablePages initialState\<bar> < 2 ^ 32"
    by (simp_all add: initialState_def)
  from percentages_nearest_percent [OF h0]
  have z: "percentage (summaryData initialState [] ! 2) = ''0%''"
    "percentage (summaryData initialState [] ! 5) = ''0%''"
    by (simp_all add: initialState_def)
  from h row near z show ?thesis by simp
qed

section \<open>Claims about the scheduler and the publisher\<close>

text \<open>
  C9. First part: in a mounted component, whatever its state, when the snapshot
  changes at times 0, 50, 100 and 150 (counted from now) and nothing but time follows,
  split into steps in any way and at least 300 ms in all, then exactly one fold is
  added to those that ran before, it runs at time 450 or later, its payload is the
  snapshot of the last change, no timer stays pending, the reducer state is the result
  of \<^verbatim>\<open>UPDATE_DATA\<close> over that snapshot applied to the state before the burst, and the
  last view published is the one of this state and snapshot. Second part: after any
  events without an unmount, followed by at least 300 ms of time alone, no timer is
  pending, the last fold that ran has the current snapshot as its payload, the reducer
  state is the result of \<^verbatim>\<open>UPDATE_DATA\<close> over the current snapshot, and the last view
  published is the one of this state and snapshot.
\<close>

theorem debounce_coalesces:
  "(mounted c \<and> wait \<le> sum_list ns \<longrightarrow>
      (\<exists>t. folds (run c ([CrawlDataChanged d0, Advance 50, CrawlDataChanged d1, Advance 50,
                           CrawlDataChanged d2, Advance 50, CrawlDataChanged d3] @ map Advance ns)) =
              folds c @ [(t, case d3 of None \<Rightarrow> [] | Some d \<Rightarrow> d)] \<and>
           now c + 450 \<le> t) \<and>
      timer (run c ([CrawlDataChanged d0, Advance 50, CrawlDataChanged d1, Advance 50,
                     CrawlDataChanged d2, Advance 50, CrawlDataChanged d3] @ map Advance ns)) =
        None \<and>
      state (run c ([CrawlDataChanged d0, Advance 50, CrawlDataChanged d1, Advance 50,
                     CrawlDataChanged d2, Advance 50, CrawlDataChanged d3] @ map Advance ns)) =
        reducer (state c) (UPDATE_DATA (case d3 of None \<Rightarrow> [] | Some d \<Rightarrow> d)) \<and>
      stableCrawlData
         (run c ([CrawlDataChanged d0, Advance 50, CrawlDataChanged d1, Advance 50,
                  CrawlDataChanged d2, Advance 50, CrawlDataChanged d3] @ map Advance ns)) =
        (case d3 of None \<Rightarrow> [] | Some d \<Rightarrow> d) \<and>
      last (published
         (run c ([CrawlDataChanged d0, Advance 50, CrawlDataChanged d1, Advance 50,
                  CrawlDataChanged d2, Advance 50, CrawlDataChanged d3] @ map Advance ns))) =
        summary_view (reducer (state c) (UPDATE_DATA (case d3 of None \<Rightarrow> [] | Some d \<Rightarrow> d)))
          (case d3 of None \<Rightarrow> [] | Some d \<Rightarrow> d)) \<and>
   (Unmount \<notin> set evs \<and> wait \<le> sum_list ns \<longrightarrow>
      timer (run (mount t0 d) (evs @ map Advance ns)) = None \<and>
      folds (run (mount t0 d) (evs @ map Advance ns)) \<noteq> [] \<and>
      snd (last (folds (run (mount t0 d) (evs @ map Advance ns)))) =
        stableCrawlData (run (mount t0 d) (evs @ map Advance ns)) \<and>
      (\<exists>S. state (run (mount t0 d) (evs @ map Advance ns)) =
             reducer S (UPDATE_DATA (stableCrawlData (run (mount t0 d) (evs @ map Advance ns))))) \<and>
      last (published (run (mount t0 d) (evs @ map Advance ns))) =
        summary_view (state (run (mount t0 d) (evs @ map Advance ns)))
          (stableCrawlData (run (mount t0 d) (evs @ map Advance ns))))"
proof (intro conjI impI)
  let ?burst = "[CrawlDataChanged d0, Advance 50, CrawlDataChanged d1, Advance 50,
                 CrawlDataChanged d2, Advance 50, CrawlDataChanged d3]"
  let ?d3 = "case d3 of None \<Rightarrow> [] | Some d \<Rightarrow> d"
  let ?c' = "run c (?burst @ map Advance ns)"
  assume a: "mounted c \<and> wait \<le> sum_list ns"
  then have m: "mounted c" and q: "wait \<le> sum_list ns" by simp_all
  from burst_state [OF m, of d0 d1 d2 d3] have b:
    "mounted (run c ?burst)"
    "timer (run c ?burst) = Some (now c + 450, ?d3)"
    "now (run c ?burst) = now c + 150"
    "folds (run c ?burst) = folds c"
    "state (run c ?burst) = state c"
    "crawlData (run c ?burst) = d3"
    by blast+
  have lt: "now (run c ?burst) < now c + 450" by (simp add: b(3))
  have le: "now c + 450 \<le> now (run c ?burst) + sum_list ns"
    using q by (simp add: b(3) wait_def)
  have sb: "stableCrawlData (run c ?burst) = ?d3"
    by (simp add: stableCrawlData_def b(6))
  from advance_fires [OF b(1) b(2) lt le] obtain t where f:
    "folds ?c' = folds c @ [(t, ?d3)]" "now c + 450 \<le> t" "timer ?c' = None"
    "state ?c' = reducer (state c) (UPDATE_DATA ?d3)" "crawlData ?c' = d3"
    "published ?c' =
       published (run c ?burst) @ [summary_view (reducer (state c) (UPDATE_DATA ?d3)) ?d3]"
    unfolding run_append b(4) b(5) b(6) sb by blast
  from f(1,2) show "\<exists>t. folds ?c' = folds c @ [(t, ?d3)] \<and> now c + 450 \<le> t" by blast
  from f(3) show "timer ?c' = None" .
  from f(4) show "state ?c' = reducer (state c) (UPDATE_DATA ?d3)" .
  from f(5) show "stableCrawlData ?c' = ?d3" by (simp add: stableCrawlData_def)
  from f(6) show "last (published ?c') = summary_view (reducer (state c) (UPDATE_DATA ?d3)) ?d3"
    by simp
next
  let ?c' = "run (mount t0 d) (evs @ map Advance ns)"
  assume a: "Unmount \<notin> set evs \<and> wait \<le> sum_list ns"
  then have inv: "scheduler_inv (run (mount t0 d) evs)"
    by (simp add: scheduler_inv_run scheduler_inv_mount)
  from final_fold_runs [OF inv] a have t: "timer ?c' = None"
    by (simp add: run_append)
  from scheduler_inv_advances [OF inv, of ns] have inv': "scheduler_inv ?c'"
    by (simp add: run_append)
  note i = scheduler_inv_idle [OF inv' t]
  from t show "timer ?c' = None" .
  from i show "folds ?c' \<noteq> []" by blast
  from i show "snd (last (folds ?c')) = stableCrawlData ?c'" by blast
  from i show "\<exists>S. state ?c' = reducer S (UPDATE_DATA (stableCrawlData ?c'))" by blast
  from i show "last (published ?c') = summary_view (state ?c') (stableCrawlData ?c')" by blast
qed

theorem debounce_coalesces_witness:
  "mounted (mount 0 None) \<and> wait \<le> sum_list [100, 200] \<and>
   folds (run (mount 0 None)
      ([CrawlDataChanged (Some []), Advance 50, CrawlDataChanged (Some [bare_page]), Advance 50,
        CrawlDataChanged None, Advance 50,
        CrawlDataChanged (Some [page [''/a''] [''/b''] 0.9, bare_page])] @
       map Advance [100, 200])) = [(450, [page [''/a''] [''/b''] 0.9, bare_page])] \<and>
   state (run (mount 0 None)
      ([CrawlDataChanged (Some []), Advance 50, CrawlDataChanged (Some [bare_page]), Advance 50,
        CrawlDataChanged None, Advance 50,
        CrawlDataChanged (Some [page [''/a''] [''/b''] 0.9, bare_page])] @
       map Advance [100, 200])) =
     \<lparr>internalLinks = [''/a''], externalLinks = [''/b''], totalIndexablePages = 1,
      isProcessing = False\<rparr> \<and>
   last (published (run (mount 0 None)
      ([CrawlDataChanged (Some []), Advance 50, CrawlDataChanged (Some [bare_page]), Advance 50,
        CrawlDataChanged None, Advance 50,
        CrawlDataChanged (Some [page [''/a''] [''/b''] 0.9, bare_page])] @
       map Advance [100, 200]))) =
     \<lparr>totaPagesCrawled = 2, totalInternalLinks = 1, totalExternalLinks = 1,
      totalLinksFound = 2, notIndexablePages = 1, indexablePages = 1\<rparr> \<and>
   Unmount \<notin> set [Advance 10, CrawlDataChanged (Some [bare_page])] \<and>
   snd (last (folds (run (mount 0 None)
      ([Advance 10, CrawlDataChanged (Some [bare_page])] @ map Advance [100, 200])))) = [bare_page]"
  using debounce_coalesces [of "mount 0 None" "[100, 200]" "Some []" "Some [bare_page]" None
      "Some [page [''/a''] [''/b''] 0.9, bare_page]"
      "[Advance 10, CrawlDataChanged (Some [bare_page])]" 0 None]
  by (simp add: eval_defs bare_page_def)

text \<open>
  C10. The flag \<^verbatim>\<open>isProcessing\<close> is false in \<open>initialState\<close>, in every state that
  \<^verbatim>\<open>UPDATE_DATA\<close> returns, in every state that any sequence of actions reaches from
  \<open>initialState\<close>, and in the reducer state of the component after any events. So the
  guard of the publishing effect lets every publication through, and the
  \<^verbatim>\<open>Processing...\<close> indicator is never shown.
\<close>

theorem isProcessing_never_true:
  "\<not> isProcessing initialState \<and>
   \<not> isProcessing (reducer S (UPDATE_DATA data)) \<and>
   \<not> isProcessing (foldl reducer initialState acts) \<and>
   \<not> isProcessing (state (run (mount t d) evs)) \<and>
   published (setSummary_effect (run (mount t d) evs)) =
     published (run (mount t d) evs) @
       [summary_view (state (run (mount t d) evs)) (stableCrawlData (run (mount t d) evs))] \<and>
   \<not> processing_indicator (run (mount t d) evs)"
proof -
  have "\<not> isProcessing (state (run (mount t d) evs))"
    by (rule run_isProcessing) (rule mount_isProcessing)
  moreover have "\<not> isProcessing initialState"
    by (simp add: initialState_def)
  ultimately show ?thesis
    by (simp add: reducer_UPDATE_DATA reachable_isProcessing
        setSummary_effect_def processing_indicator_def)
qed

text \<open>
  C1, evaluated on the component. The component mounts on an empty snapshot; the
  snapshot then becomes one record of score 0.9. At that change the publishing effect
  runs at once: it publishes a view with one page crawled and no indexable page, while
  no fold has run and the fold over the new snapshot is only scheduled for time 300.
  When that fold completes, a second view for the same snapshot follows, now with one
  indexable page: two publications for the one recomputation, the first of them from
  counts that no fold over the published snapshot produced.
\<close>

theorem publish_before_fold_completes:
  "published (run (mount 0 (Some [])) [CrawlDataChanged (Some [page [] [] 0.9])]) =
     [\<lparr>totaPagesCrawled = 0, totalInternalLinks = 0, totalExternalLinks = 0,
       totalLinksFound = 0, notIndexablePages = 0, indexablePages = 0\<rparr>,
      \<lparr>totaPagesCrawled = 1, totalInternalLinks = 0, totalExternalLinks = 0,
       totalLinksFound = 0, notIndexablePages = 1, indexablePages = 0\<rparr>] \<and>
   folds (run (mount 0 (Some [])) [CrawlDataChanged (Some [page [] [] 0.9])]) = [] \<and>
   timer (run (mount 0 (Some [])) [CrawlDataChanged (Some [page [] [] 0.9])]) =
     Some (300, [page [] [] 0.9]) \<and>
   published (run (mount 0 (Some [])) [CrawlDataChanged (Some [page [] [] 0.9]), Advance 300]) =
     [\<lparr>totaPagesCrawled = 0, totalInternalLinks = 0, totalExternalLinks = 0,
       totalLinksFound = 0, notIndexablePages = 0, indexablePages = 0\<rparr>,
      \<lparr>totaPagesCrawled = 1, totalInternalLinks = 0, totalExternalLinks = 0,
       totalLinksFound = 0, notIndexablePages = 1, indexablePages = 0\<rparr>,
      \<lparr>totaPagesCrawled = 1, totalInternalLinks = 0, totalExternalLinks = 0,
       totalLinksFound = 0, notIndexablePages = 0, indexablePages = 1\<rparr>] \<and>
   folds (run (mount 0 (Some [])) [CrawlDataChanged (Some [page [] [] 0.9]), Advance 300]) =
     [(300, [page [] [] 0.9])]"
  by (simp add: eval_defs)

text \<open>
  C3, evaluated on the component. The component mounts on a snapshot of one record of
  score 0.9 and folds it after 300 ms; the store then replaces the snapshot by the empty
  one. The publishing effect runs at that change with the count of the fold before it:
  the view it publishes has \<^verbatim>\<open>notIndexablePages\<close> equal to \<open>0 - 1\<close>, and the row
  \<^verbatim>\<open>Total Not Indexable Pages\<close> shows the same value. (The five other fields are
  never negative, \<open>published_five_fields_nonneg\<close>, and neither is
  \<^verbatim>\<open>notIndexablePages\<close> in the view published when a fold completes,
  \<open>fire_view_nonneg\<close>.)
\<close>

theorem notIndexablePages_negative_after_shrink:
  "folds (run (mount 0 (Some [page [] [] 0.9])) [Advance 300, CrawlDataChanged (Some [])]) =
     [(300, [page [] [] 0.9])] \<and>
   last (published
     (run (mount 0 (Some [page [] [] 0.9])) [Advance 300, CrawlDataChanged (Some [])])) =
     \<lparr>totaPagesCrawled = 0, totalInternalLinks = 0, totalExternalLinks = 0,
      totalLinksFound = 0, notIndexablePages = - 1, indexablePages = 1\<rparr> \<and>
   item_value (summaryData
       (state (run (mount 0 (Some [page [] [] 0.9])) [Advance 300, CrawlDataChanged (Some [])]))
       (stableCrawlData
          (run (mount 0 (Some [page [] [] 0.9])) [Advance 300, CrawlDataChanged (Some [])])) ! 5)
     = - 1"
  by (simp add: eval_defs summaryData_def totalNotIndexablePages_def)

section \<open>Claims about resetting\<close>

lemma sample_state:
  "state (run (mount 0 (Some [page [''/a''] [] 0.9])) [Advance 300]) =
     \<lparr>internalLinks = [''/a''], externalLinks = [], totalIndexablePages = 1, isProcessing = False\<rparr>"
  by (simp add: eval_defs)

text \<open>
  C6, as the sources have it. Take the component after it has folded one record that
  links to \<^verbatim>\<open>/a\<close>. No action of the reducer and no event of the component brings its
  state back to \<open>initialState\<close>; and \<^verbatim>\<open>clearChatHistory\<close>, the one clearing operation
  of the sources, leaves that state and the published summaries as they are.
\<close>

theorem clear_does_not_reset_aggregation:
  "internalLinks (state (run (mount 0 (Some [page [''/a''] [] 0.9])) [Advance 300])) = [''/a''] \<and>
   \<not> (\<exists>a. reducer (state (run (mount 0 (Some [page [''/a''] [] 0.9])) [Advance 300])) a =
            initialState) \<and>
   \<not> (\<exists>ev. state (step (run (mount 0 (Some [page [''/a''] [] 0.9])) [Advance 300]) ev) =
            initialState) \<and>
   state (summary_component (app_clearChatHistory
       \<lparr>summary_component = run (mount 0 (Some [page [''/a''] [] 0.9])) [Advance 300],
        chat_component = \<lparr>messages = [\<lparr>msg_id = 1, role = user, content = ''hi''\<rparr>],
                          localStorage = Some Map.empty, toasts = []\<rparr>\<rparr>)) \<noteq> initialState \<and>
   published (summary_component (app_clearChatHistory
       \<lparr>summary_component = run (mount 0 (Some [page [''/a''] [] 0.9])) [Advance 300],
        chat_component = \<lparr>messages = [\<lparr>msg_id = 1, role = user, content = ''hi''\<rparr>],
                          localStorage = Some Map.empty, toasts = []\<rparr>\<rparr>)) =
     published (run (mount 0 (Some [page [''/a''] [] 0.9])) [Advance 300])"
proof -
  let ?c = "run (mount 0 (Some [page [''/a''] [] 0.9])) [Advance 300]"
  have mem: "''/a'' \<in> set (internalLinks (state ?c))" by (simp add: sample_state)
  have a: "\<And>a. reducer (state ?c) a \<noteq> initialState"
  proof
    fix a assume "reducer (state ?c) a = initialState"
    with reducer_links_subset [of "state ?c" a] mem show False
      by (auto simp: initialState_def)
  qed
  have e: "\<And>ev. state (step ?c ev) \<noteq> initialState"
  proof
    fix ev assume "state (step ?c ev) = initialState"
    with step_links_subset [of ?c ev] mem show False
      by (auto simp: initialState_def)
  qed
  show ?thesis
    using a e by (simp add: sample_state app_clearChatHistory_def initialState_def)
qed

text \<open>
  C6, amended. The aggregation has no reset operation. An action other than
  \<^verbatim>\<open>UPDATE_DATA\<close> leaves the reducer state as it is; no action of the reducer and no
  sequence of events of the component removes a URL from either link set, so a state
  with a link in it never becomes \<open>initialState\<close> again. \<^verbatim>\<open>clearChatHistory\<close> leaves
  the Summary component as it is: when the local storage can be reached it removes the
  key of the chat messages there, empties the messages and shows one toast; when the
  local storage throws it only shows the failure toast. A component that mounts starts
  from \<open>initialState\<close>, and the one view it publishes then has the snapshot's length as
  pages crawled and as not indexable pages and 0 in the four other fields: all zeros
  when the snapshot is empty.
\<close>

theorem no_reset_operation:
  "reducer S OTHER = S \<and>
   set (internalLinks S) \<subseteq> set (internalLinks (reducer S a)) \<and>
   set (externalLinks S) \<subseteq> set (externalLinks (reducer S a)) \<and>
   set (internalLinks (state c)) \<subseteq> set (internalLinks (state (step c ev))) \<and>
   set (externalLinks (state c)) \<subseteq> set (externalLinks (state (step c ev))) \<and>
   set (internalLinks (state c)) \<subseteq> set (internalLinks (state (run c evs))) \<and>
   set (externalLinks (state c)) \<subseteq> set (externalLinks (state (run c evs))) \<and>
   (internalLinks S \<noteq> [] \<or> externalLinks S \<noteq> [] \<longrightarrow> reducer S a \<noteq> initialState) \<and>
   (internalLinks (state c) \<noteq> [] \<or> externalLinks (state c) \<noteq> [] \<longrightarrow>
      state (run c evs) \<noteq> initialState) \<and>
   summary_component (app_clearChatHistory app) = summary_component app \<and>
   (localStorage (chat_component app) = Some store \<longrightarrow>
      messages (chat_component (app_clearChatHistory app)) = [] \<and>
      localStorage (chat_component (app_clearChatHistory app)) =
        Some (store(LOCAL_STORAGE_KEY := None)) \<and>
      toasts (chat_component (app_clearChatHistory app)) =
        toasts (chat_component app) @ [''Chat history cleared'']) \<and>
   (localStorage (chat_component app) = None \<longrightarrow>
      chat_component (app_clearChatHistory app) =
        (chat_component app)
          \<lparr>toasts := toasts (chat_component app) @ [''Failed to clear chat history'']\<rparr>) \<and>
   state (mount t d) = initialState \<and>
   published (mount t d) =
     [\<lparr>totaPagesCrawled = int (length (case d of None \<Rightarrow> [] | Some x \<Rightarrow> x)),
       totalInternalLinks = 0, totalExternalLinks = 0, totalLinksFound = 0,
       notIndexablePages = int (length (case d of None \<Rightarrow> [] | Some x \<Rightarrow> x)),
       indexablePages = 0\<rparr>]"
proof -
  have r: "set (internalLinks S) \<subseteq> set (internalLinks (reducer S a))"
          "set (externalLinks S) \<subseteq> set (externalLinks (reducer S a))"
    using reducer_links_subset [of S a] by simp_all
  have st: "set (internalLinks (state c)) \<subseteq> set (internalLinks (state (step c ev)))"
           "set (externalLinks (state c)) \<subseteq> set (externalLinks (state (step c ev)))"
    using step_links_subset [of c ev] by simp_all
  have ru: "set (internalLinks (state c)) \<subseteq> set (internalLinks (state (run c evs)))"
           "set (externalLinks (state c)) \<subseteq> set (externalLinks (state (run c evs)))"
    using run_links_subset [of c evs] by simp_all
  have n1: "internalLinks S \<noteq> [] \<or> externalLinks S \<noteq> [] \<longrightarrow> reducer S a \<noteq> initialState"
  proof (intro impI notI)
    assume "internalLinks S \<noteq> [] \<or> externalLinks S \<noteq> []" and "reducer S a = initialState"
    with r show False by (auto simp: initialState_def)
  qed
  have n2: "internalLinks (state c) \<noteq> [] \<or> externalLinks (state c) \<noteq> [] \<longrightarrow>
      state (run c evs) \<noteq> initialState"
  proof (intro impI notI)
    assume "internalLinks (state c) \<noteq> [] \<or> externalLinks (state c) \<noteq> []"
      and "state (run c evs) = initialState"
    with ru show False by (auto simp: initialState_def)
  qed
  have k: "summary_component (app_clearChatHistory app) = summary_component app"
    by (simp add: app_clearChatHistory_def)
  have ok: "localStorage (chat_component app) = Some store \<longrightarrow>
      messages (chat_component (app_clearChatHistory app)) = [] \<and>
      localStorage (chat_component (app_clearChatHistory app)) =
        Some (store(LOCAL_STORAGE_KEY := None)) \<and>
      toasts (chat_component (app_clearChatHistory app)) =
        toasts (chat_component app) @ [''Chat history cleared'']"
    by (simp add: app_clearChatHistory_def clearChatHistory_def)
  have ko: "localStorage (chat_component app) = None \<longrightarrow>
      chat_component (app_clearChatHistory app) =
        (chat_component app)
          \<lparr>toasts := toasts (chat_component app) @ [''Failed to clear chat history'']\<rparr>"
    by (simp add: app_clearChatHistory_def clearChatHistory_def)
  have p: "published (mount t d) =
     [\<lparr>totaPagesCrawled = int (length (case d of None \<Rightarrow> [] | Some x \<Rightarrow> x)),
       totalInternalLinks = 0, totalExternalLinks = 0, totalLinksFound = 0,
       notIndexablePages = int (length (case d of None \<Rightarrow> [] | Some x \<Rightarrow> x)),
       indexablePages = 0\<rparr>]"
    by (simp add: mount_def effect_defs initialState_def summary_view_def)
  have o: "reducer S OTHER = S" by simp
  from o r st ru n1 n2 k ok ko mount_state [of t d] p show ?thesis
    by (intro conjI)
qed

theorem no_reset_operation_witness:
  "internalLinks \<lparr>internalLinks = [''/a''], externalLinks = [], totalIndexablePages = 1,
                  isProcessing = False\<rparr> \<noteq> [] \<and>
   reducer \<lparr>internalLinks = [''/a''], externalLinks = [], totalIndexablePages = 1,
            isProcessing = False\<rparr> (UPDATE_DATA []) \<noteq> initialState \<and>
   internalLinks (state (run (mount 0 (Some [page [''/a''] [] 0.9])) [Advance 300])) \<noteq> [] \<and>
   state (run (run (mount 0 (Some [page [''/a''] [] 0.9])) [Advance 300])
            [CrawlDataChanged (Some []), Advance 300]) \<noteq> initialState \<and>
   localStorage \<lparr>messages = [\<lparr>msg_id = 1, role = user, content = ''hi''\<rparr>],
                 localStorage = Some [LOCAL_STORAGE_KEY \<mapsto> ''[]''], toasts = []\<rparr> =
     Some [LOCAL_STORAGE_KEY \<mapsto> ''[]''] \<and>
   messages (chat_component (app_clearChatHistory
     \<lparr>summary_component = mount 0 None,
      chat_component = \<lparr>messages = [\<lparr>msg_id = 1, role = user, content = ''hi''\<rparr>],
                        localStorage = Some [LOCAL_STORAGE_KEY \<mapsto> ''[]''], toasts = []\<rparr>\<rparr>)) = [] \<and>
   localStorage (chat_component (app_clearChatHistory
     \<lparr>summary_component = mount 0 None,
      chat_component = \<lparr>messages = [\<lparr>msg_id = 1, role = user, content = ''hi''\<rparr>],
                        localStorage = Some [LOCAL_STORAGE_KEY \<mapsto> ''[]''], toasts = []\<rparr>\<rparr>)) =
     Some Map.empty \<and>
   localStorage \<lparr>messages = [\<lparr>msg_id = 1, role = user, content = ''hi''\<rparr>],
                 localStorage = None, toasts = []\<rparr> = None \<and>
   chat_component (app_clearChatHistory
     \<lparr>summary_component = mount 0 None,
      chat_component = \<lparr>messages = [\<lparr>msg_id = 1, role = user, content = ''hi''\<rparr>],
                        localStorage = None, toasts = []\<rparr>\<rparr>) =
     \<lparr>messages = [\<lparr>msg_id = 1, role = user, content = ''hi''\<rparr>],
      localStorage = None, toasts = [''Failed to clear chat history'']\<rparr> \<and>
   published (mount 0 (Some [])) =
     [\<lparr>totaPagesCrawled = 0, totalInternalLinks = 0, totalExternalLinks = 0,
       totalLinksFound = 0, notIndexablePages = 0, indexablePages = 0\<rparr>]"
  using
    no_reset_operation
      [of "\<lparr>internalLinks = [''/a''], externalLinks = [], totalIndexablePages = 1,
            isProcessing = False\<rparr>" "UPDATE_DATA []"
          "run (mount 0 (Some [page [''/a''] [] 0.9])) [Advance 300]" "Advance 0"
          "[CrawlDataChanged (Some []), Advance 300]"
          "\<lparr>summary_component = mount 0 None,
            chat_component = \<lparr>messages = [\<lparr>msg_id = 1, role = user, content = ''hi''\<rparr>],
                              localStorage = Some [LOCAL_STORAGE_KEY \<mapsto> ''[]''], toasts = []\<rparr>\<rparr>"
          "[LOCAL_STORAGE_KEY \<mapsto> ''[]'']" 0 "Some []"]
    no_reset_operation
      [of _ _ _ _ _
          "\<lparr>summary_component = mount 0 None,
            chat_component = \<lparr>messages = [\<lparr>msg_id = 1, role = user, content = ''hi''\<rparr>],
                              localStorage = None, toasts = []\<rparr>\<rparr>"]
  by (simp add: sample_state)

end
